theory Spec2Isabelle
  imports Main "HOL-Library.Word"
begin

section \<open>Values, listeners and the object store\<close>

text \<open>
  The module \<^verbatim>\<open>dist-js/index.mjs\<close> defines \<^verbatim>\<open>EventEmitter\<close>, \<^verbatim>\<open>Child\<close>,
  \<^verbatim>\<open>Command\<close> (which extends \<^verbatim>\<open>EventEmitter\<close> and owns two further emitters,
  \<^verbatim>\<open>stdout\<close> and \<^verbatim>\<open>stderr\<close>) and the helper \<^verbatim>\<open>execute\<close>.

  A JavaScript array is an object with identity: \<^verbatim>\<open>push\<close> and \<^verbatim>\<open>unshift\<close> change it in
  place, \<^verbatim>\<open>filter\<close> allocates a new one. Since \<^verbatim>\<open>emit\<close> iterates the array object it
  read when it started, while \<^verbatim>\<open>off\<close> installs a new array and \<^verbatim>\<open>on\<close> pushes onto the
  installed one, listener arrays live in an explicit store, addressed by references.
\<close>

type_synonym ref = nat
type_synonym byte = "8 word"

text \<open>A field of the payload of a \<^verbatim>\<open>Terminated\<close> event (\<^verbatim>\<open>code\<close>, \<^verbatim>\<open>signal\<close>).\<close>

datatype field = Undefined | Null | Num int | Str string

text \<open>
  The argument handed to listeners: a line of text, a chunk of bytes, or the object
  \<^verbatim>\<open>{ code, signal }\<close>.
\<close>

datatype payload = Text string | Raw "byte list" | Status field field

text \<open>The three emitter objects of a command: \<^verbatim>\<open>this\<close>, \<^verbatim>\<open>this.stdout\<close>, \<^verbatim>\<open>this.stderr\<close>.\<close>

datatype emitter = Self | StdoutEmitter | StderrEmitter

text \<open>
  Function objects. \<open>Fn f\<close> is a function supplied by the caller, named by its identity.
  The other constructors are the closures the module itself creates, each with what it
  captures:
  \<^item> \<open>Wrapper w e name l\<close>: the arrow function of \<^verbatim>\<open>once\<close> and \<^verbatim>\<open>prependOnceListener\<close>
    (fresh identity \<open>w\<close>, captured \<^verbatim>\<open>this\<close>, \<^verbatim>\<open>eventName\<close>, \<^verbatim>\<open>listener\<close>);
  \<^item> \<open>Reject p\<close>: the \<^verbatim>\<open>reject\<close> function of the promise \<open>p\<close> made by \<^verbatim>\<open>execute()\<close>;
  \<^item> \<open>PushLine b\<close>: \<^verbatim>\<open>(line) => { buf.push(line) }\<close> for the local array \<open>b\<close>;
  \<^item> \<open>OnClose p out err\<close>: the \<^verbatim>\<open>close\<close> handler of \<^verbatim>\<open>execute()\<close>, capturing
    \<^verbatim>\<open>resolve\<close> and the two local arrays.
  The comparison \<^verbatim>\<open>l !== listener\<close> of \<^verbatim>\<open>off\<close> is comparison of identities; two closures
  created by different calls differ in their reference, so it is inequality of these
  values.
\<close>

datatype listener =
    Fn nat
  | Wrapper ref emitter string listener
  | Reject ref
  | PushLine ref
  | OnClose ref ref ref

text \<open>What a function of the caller may do when it runs: call the emitters, or throw.\<close>

datatype action =
    On emitter string nat
  | Once emitter string nat
  | Off emitter string nat
  | PrependListener emitter string nat
  | PrependOnceListener emitter string nat
  | RemoveAllListeners emitter "string option"
  | Emit emitter string payload
  | Throw payload

text \<open>The code of the caller's functions: function \<open>f\<close>, called with \<open>arg\<close>, performs \<open>B f arg\<close>.\<close>

type_synonym body = "nat \<Rightarrow> payload \<Rightarrow> action list"

datatype exn = TypeError | Thrown payload

datatype 'a completion = Normal 'a | Threw exn

datatype aggregated = TextOut string | BytesOut "byte list"

datatype child_process = ChildProcess (code: field) (signal: field) (stdout: aggregated) (stderr: aggregated)

datatype promise = Pending | Fulfilled child_process | Rejected payload

text \<open>
  The argument array of a command is an object too: \<^verbatim>\<open>Object.freeze\<close> marks it, and a
  frozen array rejects every change.
\<close>

record js_array =
  elems :: "string list"
  frozen :: bool

datatype args_val = ArgsString string | ArgsArray js_array

record options =
  encoding :: "string option"
  sidecar :: bool

text \<open>The request handed to \<^verbatim>\<open>invoke("plugin:shell|execute", ...)\<close>.\<close>

record request =
  req_program :: string
  req_args :: args_val
  req_options :: options

record state =
  eventListeners :: "emitter \<Rightarrow> string \<rightharpoonup> ref"
  arrays :: "ref \<Rightarrow> listener list"
  buffers :: "ref \<Rightarrow> payload list"
  promises :: "ref \<Rightarrow> promise"
  fresh :: ref
  calls :: "(nat \<times> payload) list"
  program :: string
  args :: args_val
  opts :: options
  sent :: "request list"

section \<open>EventEmitter\<close>

definition alloc :: "state \<Rightarrow> ref \<times> state" where
  "alloc s = (fresh s, s\<lparr>fresh := Suc (fresh s)\<rparr>)"

text \<open>The listener array registered for \<open>name\<close>, empty when there is no such key.\<close>

definition listeners :: "emitter \<Rightarrow> string \<Rightarrow> state \<Rightarrow> listener list" where
  "listeners e name s =
     (case eventListeners s e name of None \<Rightarrow> [] | Some r \<Rightarrow> arrays s r)"

definition on :: "emitter \<Rightarrow> string \<Rightarrow> listener \<Rightarrow> state \<Rightarrow> state" where
  "on e name l s =
     (case eventListeners s e name of
        Some r \<Rightarrow> s\<lparr>arrays := (arrays s)(r := arrays s r @ [l])\<rparr>
      | None \<Rightarrow>
          (let (r, s') = alloc s
           in s'\<lparr>arrays := (arrays s')(r := [l]),
                 eventListeners := (eventListeners s')(e := (eventListeners s' e)(name \<mapsto> r))\<rparr>))"

definition addListener :: "emitter \<Rightarrow> string \<Rightarrow> listener \<Rightarrow> state \<Rightarrow> state" where
  "addListener e name l s = on e name l s"

definition off :: "emitter \<Rightarrow> string \<Rightarrow> listener \<Rightarrow> state \<Rightarrow> state" where
  "off e name l s =
     (case eventListeners s e name of
        Some r \<Rightarrow>
          (let (r', s') = alloc s
           in s'\<lparr>arrays := (arrays s')(r' := filter (\<lambda>x. x \<noteq> l) (arrays s r)),
                 eventListeners := (eventListeners s')(e := (eventListeners s' e)(name \<mapsto> r'))\<rparr>)
      | None \<Rightarrow> s)"

definition removeListener :: "emitter \<Rightarrow> string \<Rightarrow> listener \<Rightarrow> state \<Rightarrow> state" where
  "removeListener e name l s = off e name l s"

definition once :: "emitter \<Rightarrow> string \<Rightarrow> listener \<Rightarrow> state \<Rightarrow> state" where
  "once e name l s = (let (w, s') = alloc s in addListener e name (Wrapper w e name l) s')"

text \<open>
  \<^verbatim>\<open>if (event)\<close> tests truthiness: a missing argument and the empty string both take the
  branch that drops every key.
\<close>

definition removeAllListeners :: "emitter \<Rightarrow> string option \<Rightarrow> state \<Rightarrow> state" where
  "removeAllListeners e event s =
     (case event of
        Some name \<Rightarrow>
          (if name \<noteq> [] then s\<lparr>eventListeners := (eventListeners s)(e := (eventListeners s e)(name := None))\<rparr>
           else s\<lparr>eventListeners := (eventListeners s)(e := Map.empty)\<rparr>)
      | None \<Rightarrow> s\<lparr>eventListeners := (eventListeners s)(e := Map.empty)\<rparr>)"

definition listenerCount :: "emitter \<Rightarrow> string \<Rightarrow> state \<Rightarrow> nat" where
  "listenerCount e name s =
     (case eventListeners s e name of Some r \<Rightarrow> length (arrays s r) | None \<Rightarrow> 0)"

definition prependListener :: "emitter \<Rightarrow> string \<Rightarrow> listener \<Rightarrow> state \<Rightarrow> state" where
  "prependListener e name l s =
     (case eventListeners s e name of
        Some r \<Rightarrow> s\<lparr>arrays := (arrays s)(r := l # arrays s r)\<rparr>
      | None \<Rightarrow>
          (let (r, s') = alloc s
           in s'\<lparr>arrays := (arrays s')(r := [l]),
                 eventListeners := (eventListeners s')(e := (eventListeners s' e)(name \<mapsto> r))\<rparr>))"

definition prependOnceListener :: "emitter \<Rightarrow> string \<Rightarrow> listener \<Rightarrow> state \<Rightarrow> state" where
  "prependOnceListener e name l s =
     (let (w, s') = alloc s in prependListener e name (Wrapper w e name l) s')"

section \<open>Aggregation and promises\<close>

text \<open>
  \<^verbatim>\<open>Array.prototype.join\<close>: the elements, converted to strings, with the separator
  between consecutive ones.
\<close>

fun join :: "string \<Rightarrow> string list \<Rightarrow> string" where
  "join sep [] = []"
| "join sep [x] = x"
| "join sep (x # y # ys) = x @ sep @ join sep (y # ys)"

definition digit_char :: "nat \<Rightarrow> char" where
  "digit_char d = char_of (48 + d)"

function show_nat :: "nat \<Rightarrow> string" where
  "show_nat n = (if n < 10 then [digit_char n] else show_nat (n div 10) @ [digit_char (n mod 10)])"
  by pat_completeness auto
termination
  by (relation "measure id") auto

text \<open>
  The string conversion \<^verbatim>\<open>join\<close> applies to an element: a string is itself, an array of
  numbers is its elements in decimal separated by commas, a plain object is
  \<^verbatim>\<open>[object Object]\<close>.
\<close>

fun to_string :: "payload \<Rightarrow> string" where
  "to_string (Text t) = t"
| "to_string (Raw bs) = join '','' (map (\<lambda>b. show_nat (unat b)) bs)"
| "to_string (Status c sg) = ''[object Object]''"

text \<open>
  The elements \<^verbatim>\<open>...c\<close> contributes to the array literal from which the \<^verbatim>\<open>Uint8Array\<close>
  is built: the bytes of a byte chunk; for a string its characters, each converted to a
  number (a decimal digit to its value, anything else to \<^verbatim>\<open>NaN\<close>, stored as 0); an object
  \<^verbatim>\<open>{ code, signal }\<close> is not iterable.
\<close>

definition char_to_byte :: "char \<Rightarrow> byte" where
  "char_to_byte c =
     (let n = (of_char c :: nat) in if 48 \<le> n \<and> n \<le> 57 then of_nat (n - 48) else 0)"

fun spread :: "payload \<Rightarrow> exn + byte list" where
  "spread (Raw bs) = Inr bs"
| "spread (Text t) = Inr (map char_to_byte t)"
| "spread (Status c sg) = Inl TypeError"

text \<open>\<^verbatim>\<open>events.reduce((p, c) => new Uint8Array([...p, ...c, 10]), p0)\<close>\<close>

fun reduce_raw :: "byte list \<Rightarrow> payload list \<Rightarrow> exn + byte list" where
  "reduce_raw p [] = Inr p"
| "reduce_raw p (c # cs) =
     (case spread c of Inl x \<Rightarrow> Inl x | Inr bs \<Rightarrow> reduce_raw (p @ bs @ [10]) cs)"

definition collectOutput :: "options \<Rightarrow> payload list \<Rightarrow> exn + aggregated" where
  "collectOutput os events =
     (if encoding os = Some ''raw''
      then (case reduce_raw [] events of Inl x \<Rightarrow> Inl x | Inr bs \<Rightarrow> Inr (BytesOut bs))
      else Inr (TextOut (join [CHR 0x0A] (map to_string events))))"

text \<open>Property reads \<^verbatim>\<open>payload.code\<close> and \<^verbatim>\<open>payload.signal\<close>; strings and arrays have neither.\<close>

fun payload_code :: "payload \<Rightarrow> field" where
  "payload_code (Status c sg) = c"
| "payload_code (Text t) = Undefined"
| "payload_code (Raw bs) = Undefined"

fun payload_signal :: "payload \<Rightarrow> field" where
  "payload_signal (Status c sg) = sg"
| "payload_signal (Text t) = Undefined"
| "payload_signal (Raw bs) = Undefined"

text \<open>A promise settles once: \<^verbatim>\<open>resolve\<close> and \<^verbatim>\<open>reject\<close> on a settled promise do nothing.\<close>

definition resolve :: "ref \<Rightarrow> child_process \<Rightarrow> state \<Rightarrow> state" where
  "resolve p v s =
     (if promises s p = Pending then s\<lparr>promises := (promises s)(p := Fulfilled v)\<rparr> else s)"

definition reject :: "ref \<Rightarrow> payload \<Rightarrow> state \<Rightarrow> state" where
  "reject p x s =
     (if promises s p = Pending then s\<lparr>promises := (promises s)(p := Rejected x)\<rparr> else s)"

section \<open>Running listeners\<close>

text \<open>
  \<^verbatim>\<open>emit\<close> calls listeners, and a listener may call \<^verbatim>\<open>emit\<close> again, or keep pushing onto
  the array being iterated; neither the recursion nor the loop is bounded by the code.
  The functions below take a bound on the number of nested steps and return \<open>None\<close> when
  it is exhausted. \<open>for_of\<close> is the loop \<^verbatim>\<open>for (const listener of listeners)\<close>: it reads
  the array object \<open>r\<close> afresh at each index, as the array iterator does, so an in-place
  \<^verbatim>\<open>push\<close> during the loop is seen, and an array installed by \<^verbatim>\<open>off\<close> is not.
  An exception of a listener ends the loop and propagates.
\<close>

function (sequential) emit :: "body \<Rightarrow> nat \<Rightarrow> emitter \<Rightarrow> string \<Rightarrow> payload \<Rightarrow> state \<Rightarrow> (bool completion \<times> state) option"
and for_of :: "body \<Rightarrow> nat \<Rightarrow> ref \<Rightarrow> nat \<Rightarrow> payload \<Rightarrow> state \<Rightarrow> (unit completion \<times> state) option"
and call :: "body \<Rightarrow> nat \<Rightarrow> listener \<Rightarrow> payload \<Rightarrow> state \<Rightarrow> (unit completion \<times> state) option"
and run :: "body \<Rightarrow> nat \<Rightarrow> action list \<Rightarrow> state \<Rightarrow> (unit completion \<times> state) option"
where
  "emit B 0 e name arg s = None"
| "emit B (Suc k) e name arg s =
     (case eventListeners s e name of
        Some r \<Rightarrow>
          (case for_of B k r 0 arg s of
             None \<Rightarrow> None
           | Some (Threw x, s') \<Rightarrow> Some (Threw x, s')
           | Some (Normal u, s') \<Rightarrow> Some (Normal True, s'))
      | None \<Rightarrow> Some (Normal False, s))"
| "for_of B 0 r i arg s = None"
| "for_of B (Suc k) r i arg s =
     (if i < length (arrays s r)
      then (case call B k (arrays s r ! i) arg s of
              None \<Rightarrow> None
            | Some (Threw x, s') \<Rightarrow> Some (Threw x, s')
            | Some (Normal u, s') \<Rightarrow> for_of B k r (Suc i) arg s')
      else Some (Normal (), s))"
| "call B 0 l arg s = None"
| "call B (Suc k) l arg s =
     (case l of
        Fn f \<Rightarrow> run B k (B f arg) (s\<lparr>calls := calls s @ [(f, arg)]\<rparr>)
      | Wrapper w e name l' \<Rightarrow> call B k l' arg (removeListener e name (Wrapper w e name l') s)
      | Reject p \<Rightarrow> Some (Normal (), reject p arg s)
      | PushLine b \<Rightarrow> Some (Normal (), s\<lparr>buffers := (buffers s)(b := buffers s b @ [arg])\<rparr>)
      | OnClose p out err \<Rightarrow>
          (case collectOutput (opts s) (buffers s out) of
             Inl x \<Rightarrow> Some (Threw x, s)
           | Inr so \<Rightarrow>
               (case collectOutput (opts s) (buffers s err) of
                  Inl x \<Rightarrow> Some (Threw x, s)
                | Inr se \<Rightarrow>
                    Some (Normal (),
                          resolve p (ChildProcess (payload_code arg) (payload_signal arg) so se) s))))"
| "run B 0 as s = None"
| "run B (Suc k) as s =
     (case as of
        [] \<Rightarrow> Some (Normal (), s)
      | a # as' \<Rightarrow>
          (case a of
             On e name f \<Rightarrow> run B k as' (on e name (Fn f) s)
           | Once e name f \<Rightarrow> run B k as' (once e name (Fn f) s)
           | Off e name f \<Rightarrow> run B k as' (off e name (Fn f) s)
           | PrependListener e name f \<Rightarrow> run B k as' (prependListener e name (Fn f) s)
           | PrependOnceListener e name f \<Rightarrow> run B k as' (prependOnceListener e name (Fn f) s)
           | RemoveAllListeners e event \<Rightarrow> run B k as' (removeAllListeners e event s)
           | Emit e name arg \<Rightarrow>
               (case emit B k e name arg s of
                  None \<Rightarrow> None
                | Some (Threw x, s') \<Rightarrow> Some (Threw x, s')
                | Some (Normal b, s') \<Rightarrow> run B k as' s')
           | Throw x \<Rightarrow> Some (Threw (Thrown x), s)))"
  by pat_completeness auto
termination
  by (relation "measure (\<lambda>x. case x of
         Inl (Inl (B, k, t)) \<Rightarrow> k | Inl (Inr (B, k, t)) \<Rightarrow> k
       | Inr (Inl (B, k, t)) \<Rightarrow> k | Inr (Inr (B, k, t)) \<Rightarrow> k)") auto

section \<open>Command\<close>

datatype child = Child (pid: nat)

text \<open>The tagged event of the wire, \<^verbatim>\<open>{ event: tag, payload }\<close>.\<close>

datatype event = Event (tag: string) (payload: payload)

text \<open>
  The constructor: \<^verbatim>\<open>super()\<close> and the two \<^verbatim>\<open>new EventEmitter()\<close> give three emitters
  without keys; \<^verbatim>\<open>args\<close> defaults to a new empty array, a string becomes a new
  one-element array, an array is kept as the object it is; \<^verbatim>\<open>options\<close> defaults to
  \<^verbatim>\<open>{}\<close>.
\<close>

definition Command_new :: "string \<Rightarrow> args_val option \<Rightarrow> options option \<Rightarrow> state" where
  "Command_new prog a os =
     \<lparr>eventListeners = (\<lambda>e. Map.empty),
      arrays = (\<lambda>r. []),
      buffers = (\<lambda>r. []),
      promises = (\<lambda>r. Pending),
      fresh = 0,
      calls = [],
      program = prog,
      args = (case a of
                None \<Rightarrow> ArgsArray \<lparr>elems = [], frozen = False\<rparr>
              | Some (ArgsString x) \<Rightarrow> ArgsArray \<lparr>elems = [x], frozen = False\<rparr>
              | Some (ArgsArray arr) \<Rightarrow> ArgsArray arr),
      opts = (case os of None \<Rightarrow> \<lparr>encoding = None, sidecar = False\<rparr> | Some os' \<Rightarrow> os'),
      sent = []\<rparr>"

definition create :: "string \<Rightarrow> args_val option \<Rightarrow> options option \<Rightarrow> state" where
  "create prog a os = Command_new prog a os"

definition sidecar_command :: "string \<Rightarrow> args_val option \<Rightarrow> options option \<Rightarrow> state" where
  "sidecar_command prog a os =
     (let instance = Command_new prog a os in instance\<lparr>opts := (opts instance)\<lparr>sidecar := True\<rparr>\<rparr>)"

text \<open>
  \<^verbatim>\<open>if (typeof args === "object") Object.freeze(args)\<close>: an array is an object, a string
  is not.
\<close>

definition freeze_if_object :: "args_val \<Rightarrow> args_val" where
  "freeze_if_object a =
     (case a of ArgsArray arr \<Rightarrow> ArgsArray (arr\<lparr>frozen := True\<rparr>) | ArgsString x \<Rightarrow> ArgsString x)"

text \<open>
  The module function \<^verbatim>\<open>execute(onEvent, program, args, options)\<close>. Its only caller,
  \<^verbatim>\<open>spawn\<close>, passes the object \<^verbatim>\<open>this.args\<close>, so freezing the parameter is a change of
  that cell of the command. \<open>sent\<close> records what \<^verbatim>\<open>invoke\<close> was handed.
\<close>

definition execute :: "string \<Rightarrow> args_val \<Rightarrow> options \<Rightarrow> state \<Rightarrow> state" where
  "execute prog a os s =
     (let a' = freeze_if_object a
      in s\<lparr>args := a',
           sent := sent s @ [\<lparr>req_program = prog, req_args = a', req_options = os\<rparr>]\<rparr>)"

text \<open>
  The callback \<^verbatim>\<open>spawn\<close> registers. The \<^verbatim>\<open>switch\<close> has four cases and no default; the
  value \<^verbatim>\<open>emit\<close> returns is dropped.
\<close>

definition dropped :: "(bool completion \<times> state) option \<Rightarrow> (unit completion \<times> state) option" where
  "dropped res =
     (case res of
        None \<Rightarrow> None
      | Some (Threw x, s') \<Rightarrow> Some (Threw x, s')
      | Some (Normal b, s') \<Rightarrow> Some (Normal (), s'))"

definition on_event :: "body \<Rightarrow> nat \<Rightarrow> event \<Rightarrow> state \<Rightarrow> (unit completion \<times> state) option" where
  "on_event B k ev s =
     (if tag ev = ''Error'' then dropped (emit B k Self ''error'' (payload ev) s)
      else if tag ev = ''Terminated'' then dropped (emit B k Self ''close'' (payload ev) s)
      else if tag ev = ''Stdout'' then dropped (emit B k StdoutEmitter ''data'' (payload ev) s)
      else if tag ev = ''Stderr'' then dropped (emit B k StderrEmitter ''data'' (payload ev) s)
      else Some (Normal (), s))"

text \<open>
  \<^verbatim>\<open>spawn()\<close> sends the request; the promise of \<^verbatim>\<open>invoke\<close> is settled by the other side,
  with a process id or a failure, and \<^verbatim>\<open>.then((pid) => new Child(pid))\<close> maps that
  settlement to the one of the promise \<^verbatim>\<open>spawn()\<close> returned.
\<close>

definition spawn :: "state \<Rightarrow> state" where
  "spawn s = execute (program s) (args s) (opts s) s"

definition spawn_then :: "payload + nat \<Rightarrow> payload + child" where
  "spawn_then ack = (case ack of Inl failure \<Rightarrow> Inl failure | Inr p \<Rightarrow> Inr (Child p))"

text \<open>
  \<^verbatim>\<open>Command.execute()\<close>, the part that runs at the call: the new promise \<open>p\<close>, the two
  local arrays, the four registrations, and \<^verbatim>\<open>this.spawn()\<close>. It returns the promise.
  \<open>spawn_catch\<close> is \<^verbatim>\<open>.catch(reject)\<close>, run when the promise of \<^verbatim>\<open>spawn()\<close> settles.
\<close>

definition Command_execute :: "state \<Rightarrow> ref \<times> state" where
  "Command_execute s =
     (let (p, s1) = alloc s;
          s2 = on Self ''error'' (Reject p) (s1\<lparr>promises := (promises s1)(p := Pending)\<rparr>);
          (out, s3) = alloc s2;
          (err, s4) = alloc (s3\<lparr>buffers := (buffers s3)(out := [])\<rparr>);
          s5 = on StdoutEmitter ''data'' (PushLine out) (s4\<lparr>buffers := (buffers s4)(err := [])\<rparr>);
          s6 = on StderrEmitter ''data'' (PushLine err) s5;
          s7 = on Self ''close'' (OnClose p out err) s6
      in (p, spawn s7))"

definition spawn_catch :: "ref \<Rightarrow> payload + nat \<Rightarrow> state \<Rightarrow> state" where
  "spawn_catch p ack s = (case spawn_then ack of Inl failure \<Rightarrow> reject p failure s | Inr c \<Rightarrow> s)"

text \<open>
  The events the other side streams, each handed to the callback in its own turn: an
  exception of one call ends that call only.
\<close>

fun deliver :: "body \<Rightarrow> nat \<Rightarrow> event list \<Rightarrow> state \<Rightarrow> state option" where
  "deliver B k [] s = Some s"
| "deliver B k (ev # evs) s =
     (case on_event B k ev s of None \<Rightarrow> None | Some (c, s') \<Rightarrow> deliver B k evs s')"

text \<open>
  The caller changing the argument array in place (\<^verbatim>\<open>push\<close>, \<^verbatim>\<open>pop\<close>, an assignment to
  an index or to \<^verbatim>\<open>length\<close>, \<^verbatim>\<open>splice\<close>, ...): \<open>f\<close> is the change of the contents. On a
  frozen array the change is refused, with a \<^verbatim>\<open>TypeError\<close> in module code.
\<close>

definition mutate :: "(string list \<Rightarrow> string list) \<Rightarrow> js_array \<Rightarrow> unit completion \<times> js_array" where
  "mutate f arr =
     (if frozen arr then (Threw TypeError, arr) else (Normal (), arr\<lparr>elems := f (elems arr)\<rparr>))"

definition caller_mutates :: "(string list \<Rightarrow> string list) \<Rightarrow> state \<Rightarrow> state" where
  "caller_mutates f s =
     (case args s of
        ArgsArray arr \<Rightarrow> s\<lparr>args := ArgsArray (snd (mutate f arr))\<rparr>
      | ArgsString x \<Rightarrow> s)"

section \<open>Notions used to state the properties\<close>

text \<open>
  A store is well formed when every listener array in use was allocated, and no two
  keys share an array. Every operation of the emitter keeps it so.
\<close>

definition wf :: "state \<Rightarrow> bool" where
  "wf s \<longleftrightarrow>
     (\<forall>e n r. eventListeners s e n = Some r \<longrightarrow> r < fresh s) \<and>
     (\<forall>e n e' n' r. eventListeners s e n = Some r \<longrightarrow> eventListeners s e' n' = Some r \<longrightarrow> e' = e \<and> n' = n)"

text \<open>
  The registry as the specification describes it: for each emitter and event name the
  ordered sequence of registered entries. \<^verbatim>\<open>on\<close> appends the function, \<^verbatim>\<open>once\<close> appends
  a wrapper of it, \<^verbatim>\<open>off\<close> removes all entries equal to the function.
\<close>

datatype entry = Plain nat | OnceOf nat

type_synonym registry = "emitter \<Rightarrow> string \<Rightarrow> entry list"

fun spec_step :: "action \<Rightarrow> registry \<Rightarrow> registry" where
  "spec_step (On e n f) R = R(e := (R e)(n := R e n @ [Plain f]))"
| "spec_step (Once e n f) R = R(e := (R e)(n := R e n @ [OnceOf f]))"
| "spec_step (Off e n f) R = R(e := (R e)(n := filter (\<lambda>x. x \<noteq> Plain f) (R e n)))"
| "spec_step a R = R"

definition spec_registry :: "action list \<Rightarrow> registry" where
  "spec_registry ops = fold spec_step ops (\<lambda>e n. [])"

fun registration :: "action \<Rightarrow> bool" where
  "registration (On e n f) = True"
| "registration (Once e n f) = True"
| "registration (Off e n f) = True"
| "registration a = False"

fun stands_for :: "listener \<Rightarrow> entry \<Rightarrow> bool" where
  "stands_for (Fn f) (Plain g) = (f = g)"
| "stands_for (Wrapper w e n (Fn f)) (OnceOf g) = (f = g)"
| "stands_for l x = False"

definition refines :: "state \<Rightarrow> registry \<Rightarrow> bool" where
  "refines s R \<longleftrightarrow> wf s \<and> (\<forall>e n. list_all2 stands_for (listeners e n s) (R e n))"

text \<open>
  A session, seen from outside: the calls the caller makes on the emitters and the
  events the other side streams, in the order they happen, each event handed to the
  callback in its own turn.
\<close>

datatype step = Caller action | Bridge event

fun session_run :: "body \<Rightarrow> nat \<Rightarrow> step list \<Rightarrow> state \<Rightarrow> state option" where
  "session_run B k [] s = Some s"
| "session_run B k (Caller a # ts) s =
     (case run B k [a] s of None \<Rightarrow> None | Some (c, s') \<Rightarrow> session_run B k ts s')"
| "session_run B k (Bridge ev # ts) s =
     (case on_event B k ev s of None \<Rightarrow> None | Some (c, s') \<Rightarrow> session_run B k ts s')"

fun events_of :: "step list \<Rightarrow> event list" where
  "events_of [] = []"
| "events_of (Caller a # ts) = events_of ts"
| "events_of (Bridge ev # ts) = ev # events_of ts"

fun calls_of :: "step list \<Rightarrow> action list" where
  "calls_of [] = []"
| "calls_of (Caller a # ts) = a # calls_of ts"
| "calls_of (Bridge ev # ts) = calls_of ts"

text \<open>
  The calls by which the caller adds or removes listeners of its own, and those together
  with \<^verbatim>\<open>removeAllListeners\<close>; \<open>mentions f a\<close> says that the call \<open>a\<close> passes the
  function \<open>f\<close>.
\<close>

fun registers :: "action \<Rightarrow> bool" where
  "registers (On e n f) = True"
| "registers (Once e n f) = True"
| "registers (Off e n f) = True"
| "registers (PrependListener e n f) = True"
| "registers (PrependOnceListener e n f) = True"
| "registers a = False"

fun registry_call :: "action \<Rightarrow> bool" where
  "registry_call (RemoveAllListeners e ev) = True"
| "registry_call a = registers a"

fun mentions :: "nat \<Rightarrow> action \<Rightarrow> bool" where
  "mentions f (On e n g) = (g = f)"
| "mentions f (Once e n g) = (g = f)"
| "mentions f (Off e n g) = (g = f)"
| "mentions f (PrependListener e n g) = (g = f)"
| "mentions f (PrependOnceListener e n g) = (g = f)"
| "mentions f a = False"

text \<open>
  A listener of the caller is one of its functions, or the wrapper \<^verbatim>\<open>once\<close> made for one;
  \<open>target\<close> is that function.
\<close>

fun caller :: "listener \<Rightarrow> bool" where
  "caller (Fn f) = True"
| "caller (Wrapper w e n (Fn f)) = True"
| "caller l = False"

fun target :: "listener \<Rightarrow> nat" where
  "target (Fn f) = f"
| "target (Wrapper w e n l) = target l"
| "target l = 0"

text \<open>
  A function body that returns at once or throws at once, and a listener whose call runs
  only such a body.
\<close>

fun returns_or_throws :: "action list \<Rightarrow> bool" where
  "returns_or_throws [] = True"
| "returns_or_throws (Throw x # as) = True"
| "returns_or_throws (a # as) = False"

fun plain_listener :: "body \<Rightarrow> payload \<Rightarrow> listener \<Rightarrow> bool" where
  "plain_listener B arg (Fn f) = returns_or_throws (B f arg)"
| "plain_listener B arg (Wrapper w e n (Fn f)) = returns_or_throws (B f arg)"
| "plain_listener B arg (Wrapper w e n l) = False"
| "plain_listener B arg l = True"

text \<open>
  What calling such a listener does, and what the loop of \<^verbatim>\<open>emit\<close> does on a fixed
  sequence of such listeners, written without a bound.
\<close>

fun invoke_plain :: "body \<Rightarrow> listener \<Rightarrow> payload \<Rightarrow> state \<Rightarrow> unit completion \<times> state" where
  "invoke_plain B (Fn f) arg s =
     ((case B f arg of Throw x # as \<Rightarrow> Threw (Thrown x) | _ \<Rightarrow> Normal ()),
      s\<lparr>calls := calls s @ [(f, arg)]\<rparr>)"
| "invoke_plain B (Wrapper w e n l) arg s =
     invoke_plain B l arg (removeListener e n (Wrapper w e n l) s)"
| "invoke_plain B (Reject p) arg s = (Normal (), reject p arg s)"
| "invoke_plain B (PushLine b) arg s =
     (Normal (), s\<lparr>buffers := (buffers s)(b := buffers s b @ [arg])\<rparr>)"
| "invoke_plain B (OnClose p out err) arg s =
     (case collectOutput (opts s) (buffers s out) of
        Inl x \<Rightarrow> (Threw x, s)
      | Inr so \<Rightarrow>
          (case collectOutput (opts s) (buffers s err) of
             Inl x \<Rightarrow> (Threw x, s)
           | Inr se \<Rightarrow>
               (Normal (),
                resolve p (ChildProcess (payload_code arg) (payload_signal arg) so se) s)))"

fun loop_plain :: "body \<Rightarrow> listener list \<Rightarrow> payload \<Rightarrow> state \<Rightarrow> unit completion \<times> state" where
  "loop_plain B [] arg s = (Normal (), s)"
| "loop_plain B (l # ls) arg s =
     (case invoke_plain B l arg s of
        (Threw x, s') \<Rightarrow> (Threw x, s')
      | (Normal u, s') \<Rightarrow> loop_plain B ls arg s')"

text \<open>
  The state of a command: with listeners of the caller only, whose functions are in
  \<open>F\<close>; and with \<^verbatim>\<open>execute()\<close> pending, where besides listeners of the caller each of
  the four keys holds its closure of \<^verbatim>\<open>execute()\<close>, for the promise \<open>p\<close> and the arrays
  \<open>out\<close> and \<open>err\<close>. \<open>fits N\<close> bounds the length of every listener array.
\<close>

definition callers_only :: "nat set \<Rightarrow> state \<Rightarrow> bool" where
  "callers_only F s \<longleftrightarrow>
     wf s \<and> (\<forall>e n. \<forall>l\<in>set (listeners e n s). caller l \<and> target l \<in> F)"

definition closures :: "ref \<Rightarrow> ref \<Rightarrow> ref \<Rightarrow> emitter \<Rightarrow> string \<Rightarrow> listener list" where
  "closures p out err e n =
     (if e = Self \<and> n = ''error'' then [Reject p]
      else if e = Self \<and> n = ''close'' then [OnClose p out err]
      else if e = StdoutEmitter \<and> n = ''data'' then [PushLine out]
      else if e = StderrEmitter \<and> n = ''data'' then [PushLine err]
      else [])"

definition executing :: "ref \<Rightarrow> ref \<Rightarrow> ref \<Rightarrow> state \<Rightarrow> bool" where
  "executing p out err s \<longleftrightarrow>
     wf s \<and> out \<noteq> err \<and>
     (\<forall>e n. filter (\<lambda>l. \<not> caller l) (listeners e n s) = closures p out err e n)"

definition fits :: "nat \<Rightarrow> state \<Rightarrow> bool" where
  "fits N s \<longleftrightarrow> (\<forall>e n. length (listeners e n s) \<le> N)"

text \<open>The state of the promise \<open>p\<close> after a run, when the run returned.\<close>

definition settled :: "ref \<Rightarrow> state option \<Rightarrow> promise option" where
  "settled p r = map_option (\<lambda>s. promises s p) r"

text \<open>Caller functions that do nothing but return.\<close>

definition idle :: body where
  "idle f arg = []"

text \<open>Caller functions of which function 0 emits \<open>''x''\<close> again, twice, on the command.\<close>

definition reentrant :: body where
  "reentrant f arg = (if f = 0 then [Emit Self ''x'' arg, Emit Self ''x'' arg] else [])"

text \<open>Caller functions of which function \<open>f\<close> throws its argument and the others return.\<close>

definition only_throws :: "nat \<Rightarrow> body" where
  "only_throws f g arg = (if g = f then [Throw arg] else [])"

section \<open>The emitter and the registry\<close>

lemmas emitter_defs = Command_new_def on_def off_def once_def alloc_def addListener_def
  removeListener_def listenerCount_def listeners_def

text \<open>
  The bound is only a device: a run that returns with some bound returns the same with
  every larger one.
\<close>

lemma fuel_mono_all:
  "\<forall>k'\<ge>k.
   (\<forall>e n arg s r. emit B k e n arg s = Some r \<longrightarrow> emit B k' e n arg s = Some r) \<and>
   (\<forall>a i arg s r. for_of B k a i arg s = Some r \<longrightarrow> for_of B k' a i arg s = Some r) \<and>
   (\<forall>l arg s r. call B k l arg s = Some r \<longrightarrow> call B k' l arg s = Some r) \<and>
   (\<forall>as s r. run B k as s = Some r \<longrightarrow> run B k' as s = Some r)"
proof (induction k)
  case 0
  then show ?case by simp
next
  case (Suc k)
  show ?case
  proof (intro allI impI)
    fix k' assume "Suc k \<le> k'"
    then obtain j where j: "k' = Suc j" "k \<le> j" by (cases k') auto
    from Suc j(2) have
      IHe: "\<And>e n arg s r. emit B k e n arg s = Some r \<Longrightarrow> emit B j e n arg s = Some r" and
      IHf: "\<And>a i arg s r. for_of B k a i arg s = Some r \<Longrightarrow> for_of B j a i arg s = Some r" and
      IHc: "\<And>l arg s r. call B k l arg s = Some r \<Longrightarrow> call B j l arg s = Some r" and
      IHr: "\<And>as s r. run B k as s = Some r \<Longrightarrow> run B j as s = Some r"
      by blast+
    have e: "emit B (Suc j) e n arg s = Some r" if "emit B (Suc k) e n arg s = Some r" for e n arg s r
    proof (cases "eventListeners s e n")
      case None
      then show ?thesis using that by simp
    next
      case (Some a)
      with that obtain q where q: "for_of B k a 0 arg s = Some q"
        by (cases "for_of B k a 0 arg s") auto
      from IHf[OF q] q that Some show ?thesis by simp
    qed
    have f: "for_of B (Suc j) a i arg s = Some r" if "for_of B (Suc k) a i arg s = Some r" for a i arg s r
    proof (cases "i < length (arrays s a)")
      case False
      then show ?thesis using that by simp
    next
      case True
      with that obtain c s1 where q: "call B k (arrays s a ! i) arg s = Some (c, s1)"
        by (cases "call B k (arrays s a ! i) arg s") auto
      show ?thesis
      proof (cases c)
        case (Normal u)
        with that True q have "for_of B k a (Suc i) arg s1 = Some r" by simp
        from IHf[OF this] IHc[OF q] True Normal show ?thesis by simp
      next
        case (Threw x)
        with that True q IHc[OF q] show ?thesis by auto
      qed
    qed
    have c: "call B (Suc j) l arg s = Some r" if "call B (Suc k) l arg s = Some r" for l arg s r
    proof (cases l)
      case (Fn g)
      with that have "run B k (B g arg) (s\<lparr>calls := calls s @ [(g, arg)]\<rparr>) = Some r" by simp
      from IHr[OF this] Fn show ?thesis by simp
    next
      case (Wrapper w e n l')
      with that have "call B k l' arg (removeListener e n (Wrapper w e n l') s) = Some r" by simp
      from IHc[OF this] Wrapper show ?thesis by simp
    qed (use that in auto)
    have r: "run B (Suc j) as s = Some r" if "run B (Suc k) as s = Some r" for as s r
    proof (cases as)
      case Nil
      then show ?thesis using that by simp
    next
      case (Cons a as')
      show ?thesis
      proof (cases a)
        case (Emit e n arg)
        with that Cons obtain c s1 where q: "emit B k e n arg s = Some (c, s1)"
          by (cases "emit B k e n arg s") auto
        show ?thesis
        proof (cases c)
          case (Normal u)
          with that Cons Emit q have "run B k as' s1 = Some r" by simp
          from IHr[OF this] IHe[OF q] Cons Emit Normal show ?thesis by simp
        next
          case (Threw x)
          with that Cons Emit q IHe[OF q] show ?thesis by auto
        qed
      qed (use that Cons IHr in auto)
    qed
    from e f c r j(1) show
      "(\<forall>e n arg s r. emit B (Suc k) e n arg s = Some r \<longrightarrow> emit B k' e n arg s = Some r) \<and>
       (\<forall>a i arg s r. for_of B (Suc k) a i arg s = Some r \<longrightarrow> for_of B k' a i arg s = Some r) \<and>
       (\<forall>l arg s r. call B (Suc k) l arg s = Some r \<longrightarrow> call B k' l arg s = Some r) \<and>
       (\<forall>as s r. run B (Suc k) as s = Some r \<longrightarrow> run B k' as s = Some r)"
      by blast
  qed
qed

lemma emit_fuel_mono: "emit B k e n arg s = Some r \<Longrightarrow> k \<le> k' \<Longrightarrow> emit B k' e n arg s = Some r"
  using fuel_mono_all[of k B] by blast

lemma wf_new: "wf (Command_new prog a os)"
  by (simp add: wf_def Command_new_def)

lemma listeners_on:
  assumes "wf s"
  shows "listeners e' n' (on e n l s) = (if e' = e \<and> n' = n then listeners e n s @ [l] else listeners e' n' s)"
  using assms
  by (auto simp: wf_def on_def listeners_def alloc_def split: option.splits)

lemma wf_on: "wf s \<Longrightarrow> wf (on e n l s)"
  unfolding wf_def on_def alloc_def
  by (auto split: option.splits if_splits simp: less_Suc_eq)

lemma listeners_off:
  assumes "wf s"
  shows "listeners e' n' (off e n l s) = (if e' = e \<and> n' = n then filter (\<lambda>x. x \<noteq> l) (listeners e n s) else listeners e' n' s)"
  using assms
  by (auto simp: wf_def off_def listeners_def alloc_def split: option.splits)

lemma wf_off: "wf s \<Longrightarrow> wf (off e n l s)"
  unfolding wf_def off_def alloc_def
  by (auto split: option.splits if_splits simp: less_Suc_eq)

lemma wf_alloc: "wf s \<Longrightarrow> wf (snd (alloc s))"
  unfolding wf_def alloc_def by (auto simp: less_Suc_eq)

lemma listeners_alloc: "listeners e n (snd (alloc s)) = listeners e n s"
  by (simp add: listeners_def alloc_def split: option.splits)

lemma listeners_once:
  assumes "wf s"
  shows "listeners e' n' (once e n l s) = (if e' = e \<and> n' = n then listeners e n s @ [Wrapper (fresh s) e n l] else listeners e' n' s)"
proof -
  have "once e n l s = on e n (Wrapper (fresh s) e n l) (snd (alloc s))"
    by (simp add: once_def addListener_def alloc_def)
  then show ?thesis
    using assms by (simp add: listeners_on wf_alloc listeners_alloc)
qed

lemma wf_once: "wf s \<Longrightarrow> wf (once e n l s)"
  by (simp add: once_def addListener_def alloc_def wf_on wf_alloc[unfolded alloc_def, simplified])

lemma off_after_once:
  assumes "wf s"
  shows "listeners e n (off e n (Fn f) (once e n (Fn f) s)) =
         filter (\<lambda>x. x \<noteq> Fn f) (listeners e n s) @ [Wrapper (fresh s) e n (Fn f)]"
  using assms by (simp add: listeners_off listeners_once wf_once)

lemma listenerCount_listeners: "listenerCount e n s = length (listeners e n s)"
  by (simp add: listenerCount_def listeners_def split: option.splits)


lemma stands_for_Fn: "stands_for l x \<Longrightarrow> (l = Fn f) = (x = Plain f)"
  by (induction l x rule: stands_for.induct) auto

lemma filter_stands_for:
  "list_all2 stands_for ls xs \<Longrightarrow>
   list_all2 stands_for (filter (\<lambda>l. l \<noteq> Fn f) ls) (filter (\<lambda>x. x \<noteq> Plain f) xs)"
  by (induction rule: list_all2_induct) (auto dest: stands_for_Fn[where f = f])

lemma refines_step:
  assumes "refines s R" "registration a"
  shows "\<exists>s1. refines s1 (spec_step a R) \<and> (\<forall>k as. run B (Suc k) (a # as) s = run B k as s1)"
proof (cases a)
  case (On e n f)
  have "refines (on e n (Fn f) s) (spec_step a R)"
    using assms(1) On by (auto simp: refines_def wf_on listeners_on list_all2_appendI)
  then show ?thesis using On by auto
next
  case (Once e n f)
  have "refines (once e n (Fn f) s) (spec_step a R)"
    using assms(1) Once by (auto simp: refines_def wf_once listeners_once list_all2_appendI)
  then show ?thesis using Once by auto
next
  case (Off e n f)
  have "refines (off e n (Fn f) s) (spec_step a R)"
    using assms(1) Off by (auto simp: refines_def wf_off listeners_off filter_stands_for)
  then show ?thesis using Off by auto
qed (use assms(2) in auto)

lemma run_registrations:
  assumes "refines s R" "list_all registration ops" "length ops < k"
  shows "\<exists>s'. run B k ops s = Some (Normal (), s') \<and> refines s' (fold spec_step ops R)"
  using assms
proof (induction ops arbitrary: s R k)
  case Nil
  then show ?case by (cases k) auto
next
  case (Cons a ops)
  then obtain k' where k: "k = Suc k'" "length ops < k'" by (cases k) auto
  from Cons.prems have ra: "registration a" and rs: "list_all registration ops" by auto
  from refines_step[OF Cons.prems(1) ra, of B] obtain s1 where
    s1: "refines s1 (spec_step a R)" "run B (Suc k') (a # ops) s = run B k' ops s1" by blast
  from Cons.IH[OF s1(1) rs k(2)] obtain s' where
    "run B k' ops s1 = Some (Normal (), s')" "refines s' (fold spec_step ops (spec_step a R))" by blast
  then show ?case using s1(2) k(1) by (auto simp del: run.simps)
qed

section \<open>Listeners that return or throw\<close>

lemma returns_or_throws_cases:
  "returns_or_throws as \<Longrightarrow> as = [] \<or> (\<exists>x as'. as = Throw x # as')"
  by (induction as rule: returns_or_throws.induct) auto

lemma call_plain:
  assumes "plain_listener B arg l"
  shows "call B (Suc (Suc (Suc k))) l arg s = Some (invoke_plain B l arg s)"
proof -
  have fn: "call B (Suc (Suc k')) (Fn f) arg s' = Some (invoke_plain B (Fn f) arg s')"
    if "returns_or_throws (B f arg)" for f s' k'
    using returns_or_throws_cases[OF that] by auto
  show ?thesis
  proof (cases l)
    case (Fn f)
    then show ?thesis using assms fn[of f "Suc k" s] by simp
  next
    case (Wrapper w e n l')
    with assms obtain f where l': "l' = Fn f" "returns_or_throws (B f arg)"
      by (cases l') auto
    show ?thesis
      using fn[OF l'(2), of k "removeListener e n (Wrapper w e n l') s"] Wrapper l'(1)
      by (simp del: call.simps add: call.simps(2)[of B "Suc (Suc k)"])
  qed (simp_all split: sum.splits)
qed

lemma invoke_plain_frame:
  "r < fresh s \<Longrightarrow>
     arrays (snd (invoke_plain B l arg s)) r = arrays s r \<and> fresh s \<le> fresh (snd (invoke_plain B l arg s))"
proof (induction B l arg s rule: invoke_plain.induct)
  case (2 B w e n l arg s)
  let ?s1 = "removeListener e n (Wrapper w e n l) s"
  have 1: "arrays ?s1 r = arrays s r" "fresh s \<le> fresh ?s1"
    using "2.prems" by (auto simp: removeListener_def off_def alloc_def split: option.splits)
  then have "r < fresh ?s1" using "2.prems" by simp
  from "2.IH"[OF this] 1 show ?case by simp
qed (auto simp: reject_def resolve_def split: sum.splits)

lemma for_of_plain:
  assumes "r < fresh s"
    and "\<forall>l\<in>set (arrays s r). plain_listener B arg l"
    and "i \<le> length (arrays s r)"
    and "length (arrays s r) + 4 \<le> K + i"
  shows "for_of B K r i arg s = Some (loop_plain B (drop i (arrays s r)) arg s)"
  using assms
proof (induction "length (arrays s r) - i" arbitrary: i s K)
  case 0
  then obtain K' where "K = Suc K'" by (cases K) auto
  with 0 show ?case by simp
next
  case (Suc m)
  then obtain K' where K: "K = Suc K'" by (cases K) auto
  from Suc.hyps(2) have i: "i < length (arrays s r)" by simp
  let ?l = "arrays s r ! i"
  have pl: "plain_listener B arg ?l" using Suc.prems(2) i by simp
  from Suc.prems(4) K i obtain k where K': "K' = Suc (Suc (Suc k))"
    by (cases K'; cases "K' - 1"; cases "K' - 2") auto
  have c: "call B K' ?l arg s = Some (invoke_plain B ?l arg s)"
    unfolding K' by (rule call_plain[OF pl])
  obtain c' s' where r: "invoke_plain B ?l arg s = (c', s')" by (cases "invoke_plain B ?l arg s")
  from invoke_plain_frame[OF Suc.prems(1), of B ?l arg] r
  have fr: "arrays s' r = arrays s r" "fresh s \<le> fresh s'" by auto
  have d: "drop i (arrays s r) = ?l # drop (Suc i) (arrays s r)"
    using i by (simp add: Cons_nth_drop_Suc)
  show ?case
  proof (cases c')
    case (Threw x)
    then show ?thesis using K i c r d by simp
  next
    case (Normal u)
    have "for_of B K' r (Suc i) arg s' = Some (loop_plain B (drop (Suc i) (arrays s' r)) arg s')"
    proof (rule Suc.hyps(1))
      show "m = length (arrays s' r) - Suc i" using Suc.hyps(2) fr by simp
      show "r < fresh s'" using Suc.prems(1) fr by simp
      show "\<forall>l\<in>set (arrays s' r). plain_listener B arg l" using Suc.prems(2) fr by simp
      show "Suc i \<le> length (arrays s' r)" using i fr by simp
      show "length (arrays s' r) + 4 \<le> K' + Suc i" using Suc.prems(4) K fr by simp
    qed
    then show ?thesis using K i c r d Normal fr by simp
  qed
qed

lemma emit_plain:
  assumes "wf s"
    and "\<forall>l\<in>set (listeners e n s). plain_listener B arg l"
    and "length (listeners e n s) + 5 \<le> K"
  shows "emit B K e n arg s =
     Some (case eventListeners s e n of
             None \<Rightarrow> (Normal False, s)
           | Some r \<Rightarrow>
               (case loop_plain B (listeners e n s) arg s of
                  (Threw x, s') \<Rightarrow> (Threw x, s')
                | (Normal u, s') \<Rightarrow> (Normal True, s')))"
proof -
  from assms(3) obtain K' where K: "K = Suc K'" by (cases K) auto
  show ?thesis
  proof (cases "eventListeners s e n")
    case None
    then show ?thesis using K by simp
  next
    case (Some r)
    then have r: "r < fresh s" "listeners e n s = arrays s r"
      using assms(1) by (auto simp: wf_def listeners_def)
    have "for_of B K' r 0 arg s = Some (loop_plain B (drop 0 (arrays s r)) arg s)"
      using assms(2,3) r K by (intro for_of_plain) auto
    then show ?thesis using Some K r
      by (auto split: prod.splits completion.splits)
  qed
qed

lemma caller_plain:
  "caller l \<Longrightarrow> plain_listener B arg l = returns_or_throws (B (target l) arg)"
  by (induction l rule: caller.induct) simp_all

section \<open>Fields and listener arrays under the operations\<close>

lemma listeners_calls [simp]: "listeners e n (s\<lparr>calls := c\<rparr>) = listeners e n s"
  by (simp add: listeners_def split: option.splits)

lemma listeners_buffers [simp]: "listeners e n (s\<lparr>buffers := b\<rparr>) = listeners e n s"
  by (simp add: listeners_def split: option.splits)

lemma listeners_promises [simp]: "listeners e n (s\<lparr>promises := q\<rparr>) = listeners e n s"
  by (simp add: listeners_def split: option.splits)

lemma listeners_fresh [simp]: "listeners e n (s\<lparr>fresh := k\<rparr>) = listeners e n s"
  by (simp add: listeners_def split: option.splits)

lemma wf_fields [simp]:
  "wf (s\<lparr>calls := c\<rparr>) = wf s"
  "wf (s\<lparr>buffers := b\<rparr>) = wf s"
  "wf (s\<lparr>promises := q\<rparr>) = wf s"
  by (simp_all add: wf_def)

lemma wf_fresh_Suc: "wf s \<Longrightarrow> wf (s\<lparr>fresh := Suc (fresh s)\<rparr>)"
  using wf_alloc[of s] by (simp add: alloc_def)

lemma on_fields [simp]:
  "buffers (on e n l s) = buffers s"
  "promises (on e n l s) = promises s"
  "opts (on e n l s) = opts s"
  "calls (on e n l s) = calls s"
  by (simp_all add: on_def alloc_def split: option.splits)

lemma once_fields [simp]:
  "buffers (once e n l s) = buffers s"
  "promises (once e n l s) = promises s"
  "opts (once e n l s) = opts s"
  "calls (once e n l s) = calls s"
  by (simp_all add: once_def addListener_def alloc_def)

lemma off_fields [simp]:
  "buffers (off e n l s) = buffers s"
  "promises (off e n l s) = promises s"
  "opts (off e n l s) = opts s"
  "calls (off e n l s) = calls s"
  by (simp_all add: off_def alloc_def split: option.splits)

lemma reject_fields [simp]:
  "buffers (reject q x s) = buffers s" "opts (reject q x s) = opts s"
  by (simp_all add: reject_def)

lemma resolve_fields [simp]:
  "buffers (resolve q v s) = buffers s" "opts (resolve q v s) = opts s"
  by (simp_all add: resolve_def)

lemma listeners_prependListener:
  assumes "wf s"
  shows "listeners e' n' (prependListener e n l s) =
         (if e' = e \<and> n' = n then l # listeners e n s else listeners e' n' s)"
  using assms
  by (auto simp: wf_def prependListener_def listeners_def alloc_def split: option.splits)

lemma wf_prependListener: "wf s \<Longrightarrow> wf (prependListener e n l s)"
  unfolding wf_def prependListener_def alloc_def
  by (auto split: option.splits if_splits simp: less_Suc_eq)

lemma prependListener_fields [simp]:
  "buffers (prependListener e n l s) = buffers s"
  "promises (prependListener e n l s) = promises s"
  "opts (prependListener e n l s) = opts s"
  "calls (prependListener e n l s) = calls s"
  by (simp_all add: prependListener_def alloc_def split: option.splits)

lemma listeners_prependOnceListener:
  assumes "wf s"
  shows "listeners e' n' (prependOnceListener e n l s) =
         (if e' = e \<and> n' = n then Wrapper (fresh s) e n l # listeners e n s else listeners e' n' s)"
proof -
  have "prependOnceListener e n l s = prependListener e n (Wrapper (fresh s) e n l) (snd (alloc s))"
    by (simp add: prependOnceListener_def alloc_def)
  then show ?thesis
    using assms by (simp add: listeners_prependListener wf_alloc listeners_alloc)
qed

lemma wf_prependOnceListener: "wf s \<Longrightarrow> wf (prependOnceListener e n l s)"
  by (simp add: prependOnceListener_def alloc_def wf_prependListener
      wf_alloc[unfolded alloc_def, simplified])

lemma prependOnceListener_fields [simp]:
  "buffers (prependOnceListener e n l s) = buffers s"
  "promises (prependOnceListener e n l s) = promises s"
  "opts (prependOnceListener e n l s) = opts s"
  "calls (prependOnceListener e n l s) = calls s"
  by (simp_all add: prependOnceListener_def alloc_def)

lemma listeners_removeAllListeners:
  "listeners e' n' (removeAllListeners e ev s) =
     (if e' = e \<and> (ev = None \<or> ev = Some [] \<or> ev = Some n') then [] else listeners e' n' s)"
  by (auto simp: removeAllListeners_def listeners_def split: option.splits)

lemma wf_removeAllListeners: "wf s \<Longrightarrow> wf (removeAllListeners e ev s)"
  unfolding wf_def removeAllListeners_def
  by (auto split: option.splits if_splits)

lemma removeAllListeners_fields [simp]:
  "buffers (removeAllListeners e ev s) = buffers s"
  "promises (removeAllListeners e ev s) = promises s"
  "opts (removeAllListeners e ev s) = opts s"
  "calls (removeAllListeners e ev s) = calls s"
  by (simp_all add: removeAllListeners_def split: option.splits)

lemma listeners_spawn [simp]: "listeners e n (spawn s) = listeners e n s"
  by (simp add: spawn_def execute_def Let_def listeners_def split: option.splits)

lemma wf_spawn [simp]: "wf (spawn s) = wf s"
  by (simp add: spawn_def execute_def Let_def wf_def)

lemma spawn_fields [simp]:
  "buffers (spawn s) = buffers s" "promises (spawn s) = promises s" "opts (spawn s) = opts s"
  by (simp_all add: spawn_def execute_def Let_def)

lemma fresh_on: "fresh s \<le> fresh (on e n l s)"
  by (simp add: on_def alloc_def split: option.splits)

section \<open>Commands with listeners of the caller only\<close>

lemma fits_mono: "fits N s \<Longrightarrow> N \<le> M \<Longrightarrow> fits M s"
  by (auto simp: fits_def intro: le_trans)

lemma fits_fields [simp]:
  "fits N (s\<lparr>calls := c\<rparr>) = fits N s"
  "fits N (s\<lparr>buffers := b\<rparr>) = fits N s"
  "fits N (s\<lparr>promises := q\<rparr>) = fits N s"
  by (simp_all add: fits_def)

lemma fits_off: "wf s \<Longrightarrow> fits N s \<Longrightarrow> fits N (off e n w s)"
  unfolding fits_def
  by (auto simp: listeners_off intro: le_trans[OF length_filter_le])

lemma callers_only_step:
  assumes "callers_only F s" "fits N s" "registry_call a" "\<forall>g. mentions g a \<longrightarrow> g \<in> F"
  shows "\<exists>s'. (\<forall>B k as. run B (Suc k) (a # as) s = run B k as s') \<and> callers_only F s'
           \<and> fits (Suc N) s' \<and> opts s' = opts s \<and> calls s' = calls s"
proof -
  have wf: "wf s" using assms(1) by (simp add: callers_only_def)
  have len: "\<And>e n. length (listeners e n s) \<le> N" using assms(2) by (simp add: fits_def)
  have cs: "\<And>e n l. l \<in> set (listeners e n s) \<Longrightarrow> caller l \<and> target l \<in> F"
    using assms(1) by (simp add: callers_only_def)
  show ?thesis
  proof (cases a)
    case (On e n f)
    have "callers_only F (on e n (Fn f) s)" "fits (Suc N) (on e n (Fn f) s)"
      using assms(4) On wf len cs by (auto simp: callers_only_def fits_def wf_on listeners_on le_SucI)
    then show ?thesis using On by (intro exI[of _ "on e n (Fn f) s"]) simp
  next
    case (Once e n f)
    have "callers_only F (once e n (Fn f) s)" "fits (Suc N) (once e n (Fn f) s)"
      using assms(4) Once wf len cs
      by (auto simp: callers_only_def fits_def wf_once listeners_once le_SucI)
    then show ?thesis using Once by (intro exI[of _ "once e n (Fn f) s"]) simp
  next
    case (Off e n f)
    have "callers_only F (off e n (Fn f) s)" "fits (Suc N) (off e n (Fn f) s)"
      using wf cs fits_off[OF wf assms(2), of e n "Fn f"]
      by (auto simp: callers_only_def wf_off listeners_off intro: fits_mono)
    then show ?thesis using Off by (intro exI[of _ "off e n (Fn f) s"]) simp
  next
    case (PrependListener e n f)
    have "callers_only F (prependListener e n (Fn f) s)" "fits (Suc N) (prependListener e n (Fn f) s)"
      using assms(4) PrependListener wf len cs
      by (auto simp: callers_only_def fits_def wf_prependListener listeners_prependListener le_SucI)
    then show ?thesis using PrependListener by (intro exI[of _ "prependListener e n (Fn f) s"]) simp
  next
    case (PrependOnceListener e n f)
    have "callers_only F (prependOnceListener e n (Fn f) s)"
      "fits (Suc N) (prependOnceListener e n (Fn f) s)"
      using assms(4) PrependOnceListener wf len cs
      by (auto simp: callers_only_def fits_def wf_prependOnceListener
          listeners_prependOnceListener le_SucI)
    then show ?thesis
      using PrependOnceListener by (intro exI[of _ "prependOnceListener e n (Fn f) s"]) simp
  next
    case (RemoveAllListeners e ev)
    have "callers_only F (removeAllListeners e ev s)" "fits (Suc N) (removeAllListeners e ev s)"
      using wf len cs
      by (auto simp: callers_only_def fits_def wf_removeAllListeners listeners_removeAllListeners
          le_SucI)
    then show ?thesis
      using RemoveAllListeners by (intro exI[of _ "removeAllListeners e ev s"]) simp
  qed (use assms(3) in auto)
qed

lemma run_callers_only:
  assumes "callers_only F s" "fits N s"
    and "list_all (\<lambda>a. registry_call a \<and> (\<forall>g. mentions g a \<longrightarrow> g \<in> F)) pre"
    and "length pre < k"
  shows "\<exists>s'. run B k pre s = Some (Normal (), s') \<and> callers_only F s'
           \<and> fits (N + length pre) s' \<and> opts s' = opts s \<and> calls s' = calls s"
  using assms
proof (induction pre arbitrary: s N k)
  case Nil
  then show ?case by (cases k) auto
next
  case (Cons a pre)
  then obtain k' where k: "k = Suc k'" "length pre < k'" by (cases k) auto
  from Cons.prems(3) have a: "registry_call a" "\<forall>g. mentions g a \<longrightarrow> g \<in> F"
    and pre: "list_all (\<lambda>a. registry_call a \<and> (\<forall>g. mentions g a \<longrightarrow> g \<in> F)) pre" by auto
  from callers_only_step[OF Cons.prems(1,2) a] obtain s1 where
    s1: "run B (Suc k') (a # pre) s = run B k' pre s1" "callers_only F s1" "fits (Suc N) s1"
      "opts s1 = opts s" "calls s1 = calls s" by blast
  from Cons.IH[OF s1(2,3) pre k(2)] obtain s' where
    "run B k' pre s1 = Some (Normal (), s')" "callers_only F s'" "fits (Suc N + length pre) s'"
    "opts s' = opts s1" "calls s' = calls s1" by blast
  then show ?case using s1 k(1) by (auto simp del: run.simps)
qed

lemma callers_only_new: "callers_only F (Command_new prog a os)" "fits 0 (Command_new prog a os)"
  by (simp_all add: callers_only_def fits_def wf_new) (simp_all add: listeners_def Command_new_def)

lemma run_pre_new:
  assumes "list_all registry_call pre"
  shows "\<exists>s0. run B (Suc (length pre)) pre (create prog a os) = Some (Normal (), s0)
           \<and> callers_only UNIV s0 \<and> fits (length pre) s0 \<and> opts s0 = opts (create prog a os)"
proof -
  have "list_all (\<lambda>a. registry_call a \<and> (\<forall>g. mentions g a \<longrightarrow> g \<in> UNIV)) pre"
    using assms by (simp add: list_all_iff)
  from run_callers_only[OF callers_only_new(1)[of UNIV prog a os] callers_only_new(2)[of prog a os] this,
      where k = "Suc (length pre)" and B = B]
  show ?thesis by (auto simp: create_def)
qed

lemma loop_others:
  assumes "\<forall>l\<in>set us. caller l \<and> target l \<noteq> f \<and> B (target l) arg = []"
  shows "\<exists>s1. loop_plain B (us @ rest) arg s = loop_plain B rest arg s1
           \<and> count_list (map fst (calls s1)) f = count_list (map fst (calls s)) f"
  using assms
proof (induction us arbitrary: s)
  case Nil
  then show ?case by auto
next
  case (Cons l us)
  then have l: "caller l" "target l \<noteq> f" "B (target l) arg = []" by auto
  have "\<exists>s0. invoke_plain B l arg s = (Normal (), s0)
          \<and> count_list (map fst (calls s0)) f = count_list (map fst (calls s)) f"
    using l by (induction l rule: caller.induct) (auto simp: removeListener_def)
  then obtain s0 where s0: "invoke_plain B l arg s = (Normal (), s0)"
    "count_list (map fst (calls s0)) f = count_list (map fst (calls s)) f" by blast
  from Cons.IH[of s0] Cons.prems obtain s1 where
    "loop_plain B (us @ rest) arg s0 = loop_plain B rest arg s1"
    "count_list (map fst (calls s1)) f = count_list (map fst (calls s0)) f" by auto
  then show ?case using s0 by (intro exI[of _ s1]) simp
qed

section \<open>Commands with \<^verbatim>\<open>execute()\<close> pending\<close>

lemma executing_fields [simp]:
  "executing p out err (s\<lparr>calls := c\<rparr>) = executing p out err s"
  "executing p out err (s\<lparr>buffers := b\<rparr>) = executing p out err s"
  "executing p out err (s\<lparr>promises := q\<rparr>) = executing p out err s"
  by (simp_all add: executing_def)

lemma filter_caller_removed:
  "caller w \<Longrightarrow> filter (\<lambda>l. \<not> caller l) (filter (\<lambda>x. x \<noteq> w) ls) = filter (\<lambda>l. \<not> caller l) ls"
  by (induction ls) auto

lemma filter_caller_removed':
  "caller w \<Longrightarrow> filter (\<lambda>x. x \<noteq> w \<and> \<not> caller x) ls = filter (\<lambda>l. \<not> caller l) ls"
  by (induction ls) auto

lemma executing_off:
  assumes "executing p out err s" "caller w"
  shows "executing p out err (off e n w s)"
  using assms
  by (auto simp: executing_def wf_off listeners_off filter_caller_removed')

lemma invoke_caller_idle:
  assumes "executing p out err s" "caller l"
  shows "\<exists>s'. invoke_plain idle l arg s = (Normal (), s') \<and> executing p out err s'
           \<and> buffers s' = buffers s \<and> promises s' = promises s \<and> opts s' = opts s
           \<and> (\<forall>N. fits N s \<longrightarrow> fits N s')"
proof (cases l)
  case (Fn f)
  then show ?thesis using assms by (simp add: idle_def)
next
  case (Wrapper w e n l')
  with assms(2) obtain f where l': "l' = Fn f" by (cases l') auto
  have "wf s" using assms(1) by (simp add: executing_def)
  then show ?thesis
    using assms Wrapper l' executing_off[OF assms(1), of l e n]
    by (simp add: idle_def removeListener_def fits_off)
qed (use assms(2) in auto)

lemma loop_callers_idle:
  assumes "executing p out err s" "list_all caller us"
  shows "\<exists>s'. loop_plain idle (us @ rest) arg s = loop_plain idle rest arg s' \<and> executing p out err s'
           \<and> buffers s' = buffers s \<and> promises s' = promises s \<and> opts s' = opts s
           \<and> (\<forall>N. fits N s \<longrightarrow> fits N s')"
  using assms
proof (induction us arbitrary: s)
  case Nil
  then show ?case by auto
next
  case (Cons l us)
  from Cons.prems have l: "caller l" and us: "list_all caller us" by auto
  from invoke_caller_idle[OF Cons.prems(1) l, of arg] obtain s1 where
    s1: "invoke_plain idle l arg s = (Normal (), s1)" "executing p out err s1"
      "buffers s1 = buffers s" "promises s1 = promises s" "opts s1 = opts s"
      "\<forall>N. fits N s \<longrightarrow> fits N s1" by blast
  from Cons.IH[OF s1(2) us] obtain s' where
    s': "loop_plain idle (us @ rest) arg s1 = loop_plain idle rest arg s'" "executing p out err s'"
      "buffers s' = buffers s1" "promises s' = promises s1" "opts s' = opts s1"
      "\<forall>N. fits N s1 \<longrightarrow> fits N s'" by blast
  show ?case
    using s1 s' by (intro exI[of _ s']) simp
qed

lemma invoke_closure:
  assumes "\<not> caller c" "plain_listener B arg c"
    and "buffers s1 = buffers s" "promises s1 = promises s" "opts s1 = opts s"
  shows "invoke_plain B c arg s1 =
     (fst (invoke_plain B c arg s),
      s1\<lparr>buffers := buffers (snd (invoke_plain B c arg s)),
          promises := promises (snd (invoke_plain B c arg s))\<rparr>)"
proof (cases c)
  case (Fn f)
  then show ?thesis using assms(1) by simp
next
  case (Wrapper w e n l)
  then show ?thesis using assms(1,2) by (cases l) auto
next
  case (Reject q)
  then show ?thesis using assms(3-) by (simp add: reject_def)
next
  case (PushLine b)
  then show ?thesis using assms(3-) by simp
next
  case (OnClose q b1 b2)
  then show ?thesis using assms(3-) by (simp add: resolve_def split: sum.splits)
qed

lemma filter_single:
  assumes "filter P ls = [c]"
  shows "\<exists>us vs. ls = us @ c # vs \<and> list_all (\<lambda>x. \<not> P x) us \<and> list_all (\<lambda>x. \<not> P x) vs \<and> P c"
proof -
  from assms obtain us vs where "ls = us @ c # vs" "\<forall>u\<in>set us. \<not> P u" "P c" "[] = filter P vs"
    unfolding filter_eq_Cons_iff by blast
  then have "ls = us @ c # vs \<and> list_all (\<lambda>x. \<not> P x) us \<and> list_all (\<lambda>x. \<not> P x) vs \<and> P c"
    using filter_empty_conv[of P vs] by (simp add: list_all_iff)
  then show ?thesis by blast
qed

lemma emit_executing:
  assumes ex: "executing p out err s" and fit: "fits N s" and K: "N + 5 \<le> K"
    and cl: "closures p out err e n = [c]"
  shows "\<exists>s'. emit idle K e n arg s =
            Some (case fst (invoke_plain idle c arg s) of Normal u \<Rightarrow> Normal True | Threw x \<Rightarrow> Threw x, s')
         \<and> executing p out err s' \<and> fits N s' \<and> opts s' = opts s
         \<and> buffers s' = buffers (snd (invoke_plain idle c arg s))
         \<and> promises s' = promises (snd (invoke_plain idle c arg s))"
proof -
  have wf: "wf s" using ex by (simp add: executing_def)
  have f: "filter (\<lambda>l. \<not> caller l) (listeners e n s) = [c]" using ex cl by (simp add: executing_def)
  from filter_single[OF this] obtain us vs where
    ls: "listeners e n s = us @ c # vs" and us: "list_all caller us" and vs: "list_all caller vs"
    and c: "\<not> caller c" by auto
  have cc: "c \<in> {Reject p, OnClose p out err, PushLine out, PushLine err}"
    using cl by (auto simp: closures_def split: if_splits)
  then have pc: "plain_listener idle arg c" by auto
  have pl: "\<forall>l\<in>set (listeners e n s). plain_listener idle arg l"
  proof
    fix l assume "l \<in> set (listeners e n s)"
    then consider "caller l" | "l = c" using ls us vs by (auto simp: list_all_iff)
    then show "plain_listener idle arg l"
    proof cases
      case 1
      then show ?thesis by (induction l rule: caller.induct) (auto simp: idle_def)
    next
      case 2
      then show ?thesis using pc by simp
    qed
  qed
  have len: "length (listeners e n s) + 5 \<le> K"
    using fit[unfolded fits_def, rule_format, of e n] K by simp
  obtain r where r: "eventListeners s e n = Some r"
    using ls by (cases "eventListeners s e n") (auto simp: listeners_def)
  have em: "emit idle K e n arg s =
      Some (case loop_plain idle (listeners e n s) arg s of
              (Threw x, s') \<Rightarrow> (Threw x, s') | (Normal u, s') \<Rightarrow> (Normal True, s'))"
    using emit_plain[OF wf pl len] r by simp
  from loop_callers_idle[OF ex us, of "c # vs" arg] obtain s1 where
    s1: "loop_plain idle (us @ c # vs) arg s = loop_plain idle (c # vs) arg s1" "executing p out err s1"
      "buffers s1 = buffers s" "promises s1 = promises s" "opts s1 = opts s"
      "\<forall>N. fits N s \<longrightarrow> fits N s1" by blast
  let ?r = "invoke_plain idle c arg s"
  let ?s2 = "s1\<lparr>buffers := buffers (snd ?r), promises := promises (snd ?r)\<rparr>"
  have ic: "invoke_plain idle c arg s1 = (fst ?r, ?s2)"
    by (rule invoke_closure[OF c pc s1(3,4,5)])
  have s2: "executing p out err ?s2" "fits N ?s2" "opts ?s2 = opts s"
    using s1 fit by simp_all
  show ?thesis
  proof (cases "fst ?r")
    case (Threw x)
    then have "loop_plain idle (listeners e n s) arg s = (Threw x, ?s2)"
      using ls s1(1) ic by simp
    then show ?thesis using em Threw s2 by (intro exI[of _ ?s2]) simp
  next
    case (Normal u)
    from loop_callers_idle[OF s2(1) vs, of "[]" arg] obtain s3 where
      s3: "loop_plain idle vs arg ?s2 = (Normal (), s3)" "executing p out err s3"
        "buffers s3 = buffers ?s2" "promises s3 = promises ?s2" "opts s3 = opts ?s2"
        "\<forall>N. fits N ?s2 \<longrightarrow> fits N s3" by auto
    have "loop_plain idle (listeners e n s) arg s = (Normal (), s3)"
      using ls s1(1) ic Normal s3(1) by simp
    then show ?thesis using em Normal s2 s3 by (intro exI[of _ s3]) simp
  qed
qed

lemma caller_step_executing:
  assumes "executing p out err s" "fits N s" "registers a"
  shows "\<exists>s'. (\<forall>B k as. run B (Suc k) (a # as) s = run B k as s') \<and> executing p out err s'
           \<and> fits (Suc N) s' \<and> buffers s' = buffers s \<and> promises s' = promises s \<and> opts s' = opts s"
proof -
  have wf: "wf s" using assms(1) by (simp add: executing_def)
  have len: "\<And>e n. length (listeners e n s) \<le> N" using assms(2) by (simp add: fits_def)
  show ?thesis
  proof (cases a)
    case (On e n f)
    have "executing p out err (on e n (Fn f) s)" "fits (Suc N) (on e n (Fn f) s)"
      using assms(1) wf len by (auto simp: executing_def fits_def wf_on listeners_on le_SucI)
    then show ?thesis using On by (intro exI[of _ "on e n (Fn f) s"]) simp
  next
    case (Once e n f)
    have "executing p out err (once e n (Fn f) s)" "fits (Suc N) (once e n (Fn f) s)"
      using assms(1) wf len by (auto simp: executing_def fits_def wf_once listeners_once le_SucI)
    then show ?thesis using Once by (intro exI[of _ "once e n (Fn f) s"]) simp
  next
    case (Off e n f)
    have "executing p out err (off e n (Fn f) s)" "fits (Suc N) (off e n (Fn f) s)"
      using assms(1,2) wf executing_off[OF assms(1), of "Fn f" e n] fits_off[OF wf assms(2), of e n "Fn f"]
      by (auto intro: fits_mono)
    then show ?thesis using Off by (intro exI[of _ "off e n (Fn f) s"]) simp
  next
    case (PrependListener e n f)
    have "executing p out err (prependListener e n (Fn f) s)" "fits (Suc N) (prependListener e n (Fn f) s)"
      using assms(1) wf len
      by (auto simp: executing_def fits_def wf_prependListener listeners_prependListener le_SucI)
    then show ?thesis using PrependListener by (intro exI[of _ "prependListener e n (Fn f) s"]) simp
  next
    case (PrependOnceListener e n f)
    have "executing p out err (prependOnceListener e n (Fn f) s)"
      "fits (Suc N) (prependOnceListener e n (Fn f) s)"
      using assms(1) wf len
      by (auto simp: executing_def fits_def wf_prependOnceListener listeners_prependOnceListener le_SucI)
    then show ?thesis
      using PrependOnceListener by (intro exI[of _ "prependOnceListener e n (Fn f) s"]) simp
  qed (use assms(3) in auto)
qed

lemma execute_executing:
  assumes co: "callers_only F s0" and fit: "fits N s0" and ex: "Command_execute s0 = (p, s)"
  shows "\<exists>out err. executing p out err s \<and> fits (Suc N) s \<and> promises s p = Pending
           \<and> buffers s out = [] \<and> buffers s err = [] \<and> opts s = opts s0"
proof -
  define s1 where "s1 = s0\<lparr>fresh := Suc (fresh s0), promises := (promises s0)(fresh s0 := Pending)\<rparr>"
  define s2 where "s2 = on Self ''error'' (Reject (fresh s0)) s1"
  define out where "out = fresh s2"
  define err where "err = Suc (fresh s2)"
  define s4 where "s4 = s2\<lparr>fresh := Suc (Suc (fresh s2)), buffers := (buffers s2)(out := [], err := [])\<rparr>"
  define s5 where "s5 = on StdoutEmitter ''data'' (PushLine out) s4"
  define s6 where "s6 = on StderrEmitter ''data'' (PushLine err) s5"
  define s7 where "s7 = on Self ''close'' (OnClose (fresh s0) out err) s6"
  have eq: "Command_execute s0 = (fresh s0, spawn s7)"
    by (simp add: Command_execute_def alloc_def Let_def s1_def s2_def s4_def s5_def s6_def s7_def
        out_def err_def)
  with ex have p: "p = fresh s0" and s: "s = spawn s7" by auto
  have wf0: "wf s0" using co by (simp add: callers_only_def)
  have wf1: "wf s1" using wf_fresh_Suc[OF wf0] by (simp add: s1_def)
  have wf2: "wf s2" using wf1 by (simp add: s2_def wf_on)
  have wf4: "wf s4" using wf_fresh_Suc[OF wf_fresh_Suc[OF wf2]] by (simp add: s4_def)
  have wf5: "wf s5" using wf4 by (simp add: s5_def wf_on)
  have wf6: "wf s6" using wf5 by (simp add: s6_def wf_on)
  have wf7: "wf s7" using wf6 by (simp add: s7_def wf_on)
  have l1: "listeners e n s1 = listeners e n s0" for e n by (simp add: s1_def)
  have l4: "listeners e n s4 = listeners e n s2" for e n by (simp add: s4_def)
  have l2: "listeners e n s2 =
      (if e = Self \<and> n = ''error'' then listeners Self ''error'' s1 @ [Reject (fresh s0)]
       else listeners e n s1)" for e n
    unfolding s2_def by (rule listeners_on[OF wf1])
  have l5: "listeners e n s5 =
      (if e = StdoutEmitter \<and> n = ''data'' then listeners StdoutEmitter ''data'' s4 @ [PushLine out]
       else listeners e n s4)" for e n
    unfolding s5_def by (rule listeners_on[OF wf4])
  have l6: "listeners e n s6 =
      (if e = StderrEmitter \<and> n = ''data'' then listeners StderrEmitter ''data'' s5 @ [PushLine err]
       else listeners e n s5)" for e n
    unfolding s6_def by (rule listeners_on[OF wf5])
  have l7: "listeners e n s7 =
      (if e = Self \<and> n = ''close'' then listeners Self ''close'' s6 @ [OnClose (fresh s0) out err]
       else listeners e n s6)" for e n
    unfolding s7_def by (rule listeners_on[OF wf6])
  have ls: "listeners e n s7 = listeners e n s0 @ closures p out err e n" for e n
    by (simp add: l7 l6 l5 l4 l2 l1 closures_def p)
  have ne: "out \<noteq> err" by (simp add: out_def err_def)
  have cs: "\<And>e n l. l \<in> set (listeners e n s0) \<Longrightarrow> caller l"
    using co by (simp add: callers_only_def)
  have f0: "filter (\<lambda>l. \<not> caller l) (listeners e n s0) = []" for e n
    using cs[of _ e n] by (simp add: filter_empty_conv)
  have fc: "filter (\<lambda>l. \<not> caller l) (closures p out err e n) = closures p out err e n" for e n
    by (simp add: closures_def)
  have "executing p out err s"
    using wf7 ne by (simp add: executing_def s ls f0 fc)
  moreover have "fits (Suc N) s"
    using fit by (auto simp: fits_def s ls closures_def le_SucI)
  moreover have "promises s p = Pending"
    by (simp add: s s7_def s6_def s5_def s4_def s2_def s1_def p)
  moreover have "buffers s out = []" "buffers s err = []"
    by (simp_all add: s s7_def s6_def s5_def s4_def out_def err_def)
  moreover have "opts s = opts s0"
    by (simp add: s s7_def s6_def s5_def s4_def s2_def s1_def)
  ultimately show ?thesis by blast
qed

lemma invoke_OnClose_buffers [simp]:
  "buffers (snd (invoke_plain B (OnClose p out err) x s)) = buffers s"
  by (simp add: resolve_def split: sum.splits)

lemma invoke_OnClose_settled:
  "promises s p \<noteq> Pending \<Longrightarrow> promises (snd (invoke_plain B (OnClose p out err) x s)) = promises s"
  by (simp add: resolve_def split: sum.splits)

lemma on_event_executing:
  assumes ex: "executing p out err s" and fit: "fits N s" and K: "N + 5 \<le> K"
  shows "\<exists>c s'. on_event idle K ev s = Some (c, s') \<and> executing p out err s' \<and> fits N s'
      \<and> opts s' = opts s
      \<and> (tag ev = ''Stdout'' \<longrightarrow>
           buffers s' = (buffers s)(out := buffers s out @ [payload ev]) \<and> promises s' = promises s)
      \<and> (tag ev = ''Stderr'' \<longrightarrow>
           buffers s' = (buffers s)(err := buffers s err @ [payload ev]) \<and> promises s' = promises s)
      \<and> (tag ev = ''Error'' \<longrightarrow>
           buffers s' = buffers s \<and> promises s' = promises (reject p (payload ev) s))
      \<and> (tag ev = ''Terminated'' \<longrightarrow>
           buffers s' = buffers s \<and>
           promises s' = promises (snd (invoke_plain idle (OnClose p out err) (payload ev) s)))
      \<and> (tag ev \<notin> {''Error'', ''Terminated'', ''Stdout'', ''Stderr''} \<longrightarrow> s' = s)"
proof -
  obtain t x where ev: "ev = Event t x" by (cases ev)
  consider "t = ''Error''" | "t = ''Terminated''" | "t = ''Stdout''" | "t = ''Stderr''"
    | "t \<notin> {''Error'', ''Terminated'', ''Stdout'', ''Stderr''}" by auto
  then show ?thesis
  proof cases
    case 1
    have "closures p out err Self ''error'' = [Reject p]" by (simp add: closures_def)
    from emit_executing[OF ex fit K this, of x] 1 ev show ?thesis
      by (auto simp: on_event_def dropped_def simp del: emit.simps)
  next
    case 2
    have "closures p out err Self ''close'' = [OnClose p out err]" by (simp add: closures_def)
    from emit_executing[OF ex fit K this, of x] obtain s' where
      s': "emit idle K Self ''close'' x s =
            Some (case fst (invoke_plain idle (OnClose p out err) x s) of
                    Normal u \<Rightarrow> Normal True | Threw xa \<Rightarrow> Threw xa, s')"
        "executing p out err s'" "fits N s'" "opts s' = opts s"
        "buffers s' = buffers (snd (invoke_plain idle (OnClose p out err) x s))"
        "promises s' = promises (snd (invoke_plain idle (OnClose p out err) x s))" by blast
    show ?thesis
      using 2 ev s'(2-) 
      by (cases "fst (invoke_plain idle (OnClose p out err) x s)")
         (simp_all add: on_event_def dropped_def s'(1) del: emit.simps invoke_plain.simps)
  next
    case 3
    have "closures p out err StdoutEmitter ''data'' = [PushLine out]" by (simp add: closures_def)
    from emit_executing[OF ex fit K this, of x] 3 ev show ?thesis
      by (auto simp: on_event_def dropped_def simp del: emit.simps)
  next
    case 4
    have "closures p out err StderrEmitter ''data'' = [PushLine err]" by (simp add: closures_def)
    from emit_executing[OF ex fit K this, of x] 4 ev show ?thesis
      by (auto simp: on_event_def dropped_def simp del: emit.simps)
  next
    case 5
    then show ?thesis using ev ex fit by (simp add: on_event_def)
  qed
qed

lemma on_event_summary:
  assumes ex: "executing p out err s" and fit: "fits N s" and K: "N + 5 \<le> K"
  shows "\<exists>c s'. on_event idle K ev s = Some (c, s') \<and> executing p out err s' \<and> fits N s'
      \<and> opts s' = opts s
      \<and> (promises s p \<noteq> Pending \<longrightarrow> promises s' p = promises s p)
      \<and> (tag ev \<noteq> ''Terminated'' \<and> tag ev \<noteq> ''Error'' \<longrightarrow> promises s' = promises s)
      \<and> (tag ev = ''Stdout'' \<longrightarrow>
           buffers s' out = buffers s out @ [payload ev] \<and> buffers s' err = buffers s err)"
proof -
  have ne: "out \<noteq> err" using ex by (simp add: executing_def)
  from on_event_executing[OF ex fit K, of ev] obtain c s' where
    s': "on_event idle K ev s = Some (c, s')" "executing p out err s'" "fits N s'" "opts s' = opts s"
      "tag ev = ''Stdout'' \<longrightarrow>
         buffers s' = (buffers s)(out := buffers s out @ [payload ev]) \<and> promises s' = promises s"
      "tag ev = ''Stderr'' \<longrightarrow>
         buffers s' = (buffers s)(err := buffers s err @ [payload ev]) \<and> promises s' = promises s"
      "tag ev = ''Error'' \<longrightarrow>
         buffers s' = buffers s \<and> promises s' = promises (reject p (payload ev) s)"
      "tag ev = ''Terminated'' \<longrightarrow>
         buffers s' = buffers s \<and>
         promises s' = promises (snd (invoke_plain idle (OnClose p out err) (payload ev) s))"
      "tag ev \<notin> {''Error'', ''Terminated'', ''Stdout'', ''Stderr''} \<longrightarrow> s' = s"
    by blast
  have a: "promises s p \<noteq> Pending \<longrightarrow> promises s' p = promises s p"
    using s'(5-9) invoke_OnClose_settled[of s p idle out err "payload ev"]
    by (cases "tag ev \<in> {''Error'', ''Terminated'', ''Stdout'', ''Stderr''}")
       (auto simp: reject_def simp del: invoke_plain.simps)
  have b: "tag ev \<noteq> ''Terminated'' \<and> tag ev \<noteq> ''Error'' \<longrightarrow> promises s' = promises s"
    using s'(5,6,9) by (cases "tag ev \<in> {''Stdout'', ''Stderr''}") auto
  have c: "tag ev = ''Stdout'' \<longrightarrow>
           buffers s' out = buffers s out @ [payload ev] \<and> buffers s' err = buffers s err"
    using s'(5) ne by auto
  from s'(1-4) a b c show ?thesis by blast
qed

section \<open>Sessions and aggregation\<close>

lemma session_run_append:
  "session_run B k (ts1 @ ts2) s =
     (case session_run B k ts1 s of None \<Rightarrow> None | Some s' \<Rightarrow> session_run B k ts2 s')"
proof (induction ts1 arbitrary: s)
  case Nil
  then show ?case by simp
next
  case (Cons t ts1)
  then show ?case
    by (cases t) (auto split: option.splits simp del: run.simps on_event_def)
qed

lemma events_split:
  "events_of ts = xs @ e # ys \<Longrightarrow>
     \<exists>ts1 ts2. ts = ts1 @ Bridge e # ts2 \<and> events_of ts1 = xs \<and> events_of ts2 = ys"
proof (induction ts arbitrary: xs)
  case Nil
  then show ?case by simp
next
  case (Cons t ts)
  show ?case
  proof (cases t)
    case (Caller a)
    with Cons.prems have "events_of ts = xs @ e # ys" by simp
    from Cons.IH[OF this] obtain ts1 ts2 where
      "ts = ts1 @ Bridge e # ts2" "events_of ts1 = xs" "events_of ts2 = ys" by blast
    then show ?thesis using Caller by (intro exI[of _ "Caller a # ts1"] exI[of _ ts2]) simp
  next
    case (Bridge ev)
    show ?thesis
    proof (cases xs)
      case Nil
      then show ?thesis using Cons.prems Bridge by (intro exI[of _ "[]"] exI[of _ ts]) simp
    next
      case (Cons x xs')
      with Cons.prems Bridge have "events_of ts = xs' @ e # ys" "x = ev" by simp_all
      from Cons.IH[OF this(1)] obtain ts1 ts2 where
        "ts = ts1 @ Bridge e # ts2" "events_of ts1 = xs'" "events_of ts2 = ys" by blast
      then show ?thesis
        using Bridge Cons \<open>x = ev\<close> by (intro exI[of _ "Bridge ev # ts1"] exI[of _ ts2]) simp
    qed
  qed
qed

lemma calls_of_append [simp]: "calls_of (ts1 @ ts2) = calls_of ts1 @ calls_of ts2"
  by (induction ts1 rule: calls_of.induct) simp_all

lemma trace_frame:
  assumes "executing p out err s" "fits N s" "list_all registers (calls_of ts)"
    and "N + length ts + 5 \<le> K"
  shows "\<exists>s'. session_run idle K ts s = Some s' \<and> executing p out err s'
      \<and> fits (N + length ts) s' \<and> opts s' = opts s
      \<and> (promises s p \<noteq> Pending \<longrightarrow> promises s' p = promises s p)
      \<and> ((\<forall>ev\<in>set (events_of ts). tag ev \<noteq> ''Terminated'' \<and> tag ev \<noteq> ''Error'') \<longrightarrow>
            promises s' = promises s)
      \<and> ((\<forall>ev\<in>set (events_of ts). tag ev = ''Stdout'') \<longrightarrow>
            buffers s' out = buffers s out @ map payload (events_of ts) \<and>
            buffers s' err = buffers s err)"
  using assms
proof (induction ts arbitrary: s N)
  case Nil
  then show ?case by simp
next
  case (Cons t ts)
  show ?case
  proof (cases t)
    case (Caller a)
    with Cons.prems(3) have ra: "registers a" and rs: "list_all registers (calls_of ts)" by auto
    from Cons.prems(4) obtain k where K: "K = Suc (Suc k)" by (cases K; cases "K - 1") auto
    from caller_step_executing[OF Cons.prems(1,2) ra] obtain s1 where
      s1: "\<forall>B k as. run B (Suc k) (a # as) s = run B k as s1" "executing p out err s1"
        "fits (Suc N) s1" "buffers s1 = buffers s" "promises s1 = promises s" "opts s1 = opts s"
      by blast
    have r: "run idle K [a] s = Some (Normal (), s1)"
      using s1(1)[rule_format, of idle "Suc k" "[]"] K by simp
    have "Suc N + length ts + 5 \<le> K" using Cons.prems(4) by simp
    from Cons.IH[OF s1(2,3) rs this] obtain s' where
      s': "session_run idle K ts s1 = Some s'" "executing p out err s'"
        "fits (Suc N + length ts) s'" "opts s' = opts s1"
        "promises s1 p \<noteq> Pending \<longrightarrow> promises s' p = promises s1 p"
        "(\<forall>ev\<in>set (events_of ts). tag ev \<noteq> ''Terminated'' \<and> tag ev \<noteq> ''Error'') \<longrightarrow>
            promises s' = promises s1"
        "(\<forall>ev\<in>set (events_of ts). tag ev = ''Stdout'') \<longrightarrow>
            buffers s' out = buffers s1 out @ map payload (events_of ts) \<and>
            buffers s' err = buffers s1 err"
      by blast
    show ?thesis
      using Caller r s1(4-6) s' by (intro exI[of _ s']) (simp del: run.simps)
  next
    case (Bridge ev)
    with Cons.prems(3) have rs: "list_all registers (calls_of ts)" by simp
    have "N + 5 \<le> K" using Cons.prems(4) by simp
    from on_event_summary[OF Cons.prems(1,2) this, of ev] obtain c s1 where
      s1: "on_event idle K ev s = Some (c, s1)" "executing p out err s1" "fits N s1"
        "opts s1 = opts s"
        "promises s p \<noteq> Pending \<longrightarrow> promises s1 p = promises s p"
        "tag ev \<noteq> ''Terminated'' \<and> tag ev \<noteq> ''Error'' \<longrightarrow> promises s1 = promises s"
        "tag ev = ''Stdout'' \<longrightarrow>
           buffers s1 out = buffers s out @ [payload ev] \<and> buffers s1 err = buffers s err"
      by blast
    have "N + length ts + 5 \<le> K" using Cons.prems(4) by simp
    from Cons.IH[OF s1(2,3) rs this] obtain s' where
      s': "session_run idle K ts s1 = Some s'" "executing p out err s'"
        "fits (N + length ts) s'" "opts s' = opts s1"
        "promises s1 p \<noteq> Pending \<longrightarrow> promises s' p = promises s1 p"
        "(\<forall>ev\<in>set (events_of ts). tag ev \<noteq> ''Terminated'' \<and> tag ev \<noteq> ''Error'') \<longrightarrow>
            promises s' = promises s1"
        "(\<forall>ev\<in>set (events_of ts). tag ev = ''Stdout'') \<longrightarrow>
            buffers s' out = buffers s1 out @ map payload (events_of ts) \<and>
            buffers s' err = buffers s1 err"
      by blast
    have f: "fits (N + length (t # ts)) s'" using s'(3) by (auto intro: fits_mono)
    show ?thesis
      using Bridge s1(1,4-7) s'(1,2,4-7) f
      by (intro exI[of _ s']) (simp del: on_event_def)
  qed
qed

lemma reduce_raw_Raw:
  "reduce_raw acc (map Raw chunks) = Inr (acc @ concat (map (\<lambda>c. c @ [10]) chunks))"
  by (induction chunks arbitrary: acc) simp_all

lemma join_Cons: "join sep (c # cs) = c @ concat (map (\<lambda>x. sep @ x) cs)"
  by (induction cs arbitrary: c) simp_all

lemma join_newline:
  "join [CHR 0x0A] chunks = (case chunks of [] \<Rightarrow> [] | c # cs \<Rightarrow> c @ concat (map ((#) CHR 0x0A) cs))"
  by (cases chunks) (simp_all add: join_Cons)

lemma collectOutput_text:
  "encoding os \<noteq> Some ''raw'' \<Longrightarrow>
   collectOutput os (map Text chunks) = Inr (TextOut (join [CHR 0x0A] chunks))"
  by (simp add: collectOutput_def comp_def)

lemma collectOutput_raw:
  "encoding os = Some ''raw'' \<Longrightarrow>
   collectOutput os (map Raw chunks) = Inr (BytesOut (concat (map (\<lambda>c. c @ [10]) chunks)))"
  by (simp add: collectOutput_def reduce_raw_Raw)

lemma collectOutput_empty:
  "collectOutput os [] = Inr (if encoding os = Some ''raw'' then BytesOut [] else TextOut [])"
  by (simp add: collectOutput_def)

section \<open>The argument array\<close>

lemma freeze_if_object_frozen:
  "args s = freeze_if_object a \<Longrightarrow> args (caller_mutates f s) = freeze_if_object a"
  by (cases a) (simp_all add: caller_mutates_def freeze_if_object_def mutate_def)

lemma fold_caller_mutates_frozen:
  "args s = freeze_if_object a \<Longrightarrow> args (fold caller_mutates fs s) = freeze_if_object a"
  by (induction fs arbitrary: s) (simp_all add: freeze_if_object_frozen)

lemma mutate_unfrozen:
  "mutate f \<lparr>elems = xs, frozen = False\<rparr> = (Normal (), \<lparr>elems = f xs, frozen = False\<rparr>)"
  by (simp add: mutate_def)

section \<open>The properties\<close>

text \<open>
  C1. \<^verbatim>\<open>emit\<close> is to return \<^verbatim>\<open>false\<close> when no listener is registered for the name, also
  after \<^verbatim>\<open>off\<close> has removed every listener registered for it. The code tests the key,
  not the array: after \<^verbatim>\<open>on(n, f)\<close> and \<^verbatim>\<open>off(n, f)\<close> on a new emitter the key is
  still there with an empty array, \<^verbatim>\<open>listenerCount\<close> is 0, and \<^verbatim>\<open>emit\<close> returns \<^verbatim>\<open>true\<close>
  having called nothing.
\<close>

theorem emit_true_after_off_removed_all:
  "listenerCount e n (off e n (Fn f) (on e n (Fn f) (Command_new prog a os))) = 0
   \<and> emit B (Suc (Suc k)) e n arg (off e n (Fn f) (on e n (Fn f) (Command_new prog a os)))
     = Some (Normal True, off e n (Fn f) (on e n (Fn f) (Command_new prog a os)))"
  by (simp add: emitter_defs)

text \<open>
  C2. A function registered with \<^verbatim>\<open>once\<close> is to be called at most once, also when
  \<^verbatim>\<open>emit\<close> is entered again from inside a listener. In the code the wrapper removes
  itself by installing a filtered copy of the array, while an \<^verbatim>\<open>emit\<close> already running
  keeps iterating the array it started with. With functions 0 and 1 both registered by
  \<^verbatim>\<open>once\<close> for \<open>''x''\<close>, and function 0 emitting \<open>''x''\<close> again, function 1 is called by
  the inner \<^verbatim>\<open>emit\<close> and once more by the outer one, with every bound that lets the
  call return.
\<close>

theorem once_listener_invoked_twice_reentrant:
  "\<exists>s'. emit reentrant (12 + k) Self ''x'' (Text ''a'')
            (once Self ''x'' (Fn 1) (once Self ''x'' (Fn 0) (Command_new ''ls'' None None)))
          = Some (Normal True, s')
      \<and> calls s' = [(0, Text ''a''), (1, Text ''a''), (1, Text ''a'')]"
proof -
  have "\<exists>s'. emit reentrant 12 Self ''x'' (Text ''a'')
            (once Self ''x'' (Fn 1) (once Self ''x'' (Fn 0) (Command_new ''ls'' None None)))
          = Some (Normal True, s')
      \<and> calls s' = [(0, Text ''a''), (1, Text ''a''), (1, Text ''a'')]"
    by (simp add: emitter_defs reentrant_def eval_nat_numeral)
  then show ?thesis by (auto dest: emit_fuel_mono[where k' = "12 + k"] simp del: emit.simps)
qed

text \<open>
  C3, as stated, for every text-mode session: it fails on a session where the caller
  put a listener on \<^verbatim>\<open>stdout\<close> before \<^verbatim>\<open>execute()\<close> and that listener throws. \<^verbatim>\<open>emit\<close>
  runs the listeners in order and has no handler, so the exception skips the closure of
  \<^verbatim>\<open>execute()\<close> and no line is buffered: for the lines a and b the promise is fulfilled
  with the empty string. It fails too when the caller calls \<^verbatim>\<open>removeAllListeners()\<close>
  after \<^verbatim>\<open>execute()\<close>: the closures are gone and the promise stays pending.
\<close>

theorem execute_text_caller_listener_counterexample:
  "settled (fst (Command_execute (on StdoutEmitter ''data'' (Fn 0) (create ''echo'' None None))))
     (deliver (only_throws 0) 8
        [Event ''Stdout'' (Text ''a''), Event ''Stdout'' (Text ''b''),
         Event ''Terminated'' (Status (Num 0) Null)]
        (snd (Command_execute (on StdoutEmitter ''data'' (Fn 0) (create ''echo'' None None)))))
   = Some (Fulfilled (ChildProcess (Num 0) Null (TextOut []) (TextOut [])))
   \<and> settled (fst (Command_execute (create ''echo'' None None)))
     (session_run idle 8
        [Caller (RemoveAllListeners Self None), Bridge (Event ''Stdout'' (Text ''a'')),
         Bridge (Event ''Stdout'' (Text ''b'')), Bridge (Event ''Terminated'' (Status (Num 0) Null))]
        (snd (Command_execute (create ''echo'' None None))))
   = Some Pending"
  by (simp add: settled_def only_throws_def idle_def Command_execute_def create_def on_event_def
      dropped_def spawn_def execute_def freeze_if_object_def removeAllListeners_def
      collectOutput_def resolve_def emitter_defs Let_def eval_nat_numeral)

text \<open>
  C3, as the code has it. Take a text-mode session in which the functions of the caller
  only return and the caller only adds or removes listeners of its own: any calls of
  \<^verbatim>\<open>on\<close>, \<^verbatim>\<open>once\<close>, \<^verbatim>\<open>off\<close>, \<^verbatim>\<open>prependListener\<close>, \<^verbatim>\<open>prependOnceListener\<close> and
  \<^verbatim>\<open>removeAllListeners\<close> before \<^verbatim>\<open>execute()\<close>, and any of the first five afterwards, at any
  point between the events. When the events are \<^verbatim>\<open>Stdout\<close> events for the lines \<open>chunks\<close>
  and then a \<^verbatim>\<open>Terminated\<close> event, every call returns and the promise of \<^verbatim>\<open>execute()\<close>
  is fulfilled with the code and signal of the event, with \<^verbatim>\<open>stdout\<close> the first line
  followed by each further line after one line feed (nothing for no line, nothing at
  the end), and with the empty string as \<^verbatim>\<open>stderr\<close>.
\<close>

theorem execute_text_joins_stdout:
  assumes pre: "list_all registry_call pre"
    and ts: "list_all registers (calls_of ts)"
    and ev: "events_of ts =
               map (\<lambda>c. Event ''Stdout'' (Text c)) chunks @ [Event ''Terminated'' (Status cd sg)]"
    and enc: "encoding (opts (create prog a os)) \<noteq> Some ''raw''"
    and K: "length pre + length ts + 6 \<le> K"
  shows "\<exists>s0 p s s'.
       run idle (Suc (length pre)) pre (create prog a os) = Some (Normal (), s0)
     \<and> Command_execute s0 = (p, s)
     \<and> session_run idle K ts (spawn_catch p (Inr pd) s) = Some s'
     \<and> promises s' p =
         Fulfilled (ChildProcess cd sg
           (TextOut (case chunks of [] \<Rightarrow> [] | c # cs \<Rightarrow> c @ concat (map ((#) CHR 0x0A) cs)))
           (TextOut []))"
proof -
  from run_pre_new[OF pre, of idle prog a os] obtain s0 where
    s0: "run idle (Suc (length pre)) pre (create prog a os) = Some (Normal (), s0)"
      "callers_only UNIV s0" "fits (length pre) s0" "opts s0 = opts (create prog a os)" by blast
  obtain p s where ps: "Command_execute s0 = (p, s)" by (cases "Command_execute s0")
  from execute_executing[OF s0(2,3) ps] obtain out err where
    ex: "executing p out err s" and fit: "fits (Suc (length pre)) s"
    and pe: "promises s p = Pending" and bo: "buffers s out = []" and be: "buffers s err = []"
    and os: "opts s = opts s0" by blast
  from events_split[OF ev] obtain ts1 ts2 where
    sp: "ts = ts1 @ Bridge (Event ''Terminated'' (Status cd sg)) # ts2"
      "events_of ts1 = map (\<lambda>c. Event ''Stdout'' (Text c)) chunks" "events_of ts2 = []" by blast
  have r1: "list_all registers (calls_of ts1)" and r2: "list_all registers (calls_of ts2)"
    using ts sp(1) by simp_all
  have K1: "Suc (length pre) + length ts1 + 5 \<le> K" using K sp(1) by simp
  from trace_frame[OF ex fit r1 K1] obtain s1 where
    s1: "session_run idle K ts1 s = Some s1" "executing p out err s1"
      "fits (Suc (length pre) + length ts1) s1" "opts s1 = opts s"
      "(\<forall>ev\<in>set (events_of ts1). tag ev \<noteq> ''Terminated'' \<and> tag ev \<noteq> ''Error'') \<longrightarrow>
            promises s1 = promises s"
      "(\<forall>ev\<in>set (events_of ts1). tag ev = ''Stdout'') \<longrightarrow>
            buffers s1 out = buffers s out @ map payload (events_of ts1) \<and>
            buffers s1 err = buffers s err"
    by blast
  have p1: "promises s1 p = Pending" using s1(5) sp(2) pe by auto
  have b1: "buffers s1 out = map Text chunks" "buffers s1 err = []"
    using s1(6) sp(2) bo be by (auto simp: comp_def)
  have K2: "Suc (length pre) + length ts1 + 5 \<le> K" using K sp(1) by simp
  from on_event_executing[OF s1(2,3) K2, of "Event ''Terminated'' (Status cd sg)"] obtain c s2 where
    s2: "on_event idle K (Event ''Terminated'' (Status cd sg)) s1 = Some (c, s2)"
      "executing p out err s2" "fits (Suc (length pre) + length ts1) s2"
      "promises s2 = promises (snd (invoke_plain idle (OnClose p out err) (Status cd sg) s1))"
    by auto
  have p2: "promises s2 p = Fulfilled (ChildProcess cd sg (TextOut (join [CHR 0x0A] chunks)) (TextOut []))"
    using enc p1 b1 s1(4) os s0(4)
    by (simp add: s2(4) collectOutput_text collectOutput_empty resolve_def)
  have K3: "Suc (length pre) + length ts1 + length ts2 + 5 \<le> K" using K sp(1) by simp
  from trace_frame[OF s2(2,3) r2 K3] p2 obtain s' where
    s': "session_run idle K ts2 s2 = Some s'" "promises s' p = promises s2 p" by auto
  have "session_run idle K ts s = Some s'"
    unfolding sp(1) by (simp add: session_run_append s1(1) s2(1) s'(1) del: on_event_def)
  then show ?thesis
    using s0(1) ps s'(2) p2
    by (intro exI[of _ s0] exI[of _ p] exI[of _ s] exI[of _ s'])
       (simp add: spawn_catch_def spawn_then_def join_newline)
qed

theorem execute_text_joins_stdout_witness:
  "\<exists>s0 p s s'.
       run idle (Suc (length [On StdoutEmitter ''data'' 1, Once Self ''close'' 2]))
         [On StdoutEmitter ''data'' 1, Once Self ''close'' 2] (create ''echo'' None None)
         = Some (Normal (), s0)
     \<and> Command_execute s0 = (p, s)
     \<and> session_run idle 12
          [Bridge (Event ''Stdout'' (Text ''a'')), Caller (On StderrEmitter ''data'' 3),
           Bridge (Event ''Stdout'' (Text ''b'')),
           Bridge (Event ''Terminated'' (Status (Num 0) Null))]
          (spawn_catch p (Inr 7) s) = Some s'
     \<and> promises s' p =
         Fulfilled (ChildProcess (Num 0) Null (TextOut [CHR ''a'', CHR 0x0A, CHR ''b'']) (TextOut []))"
proof -
  have h1: "list_all registry_call [On StdoutEmitter ''data'' 1, Once Self ''close'' 2]"
    by simp
  have h2: "list_all registers
      (calls_of [Bridge (Event ''Stdout'' (Text ''a'')), Caller (On StderrEmitter ''data'' 3),
                 Bridge (Event ''Stdout'' (Text ''b'')),
                 Bridge (Event ''Terminated'' (Status (Num 0) Null))])"
    by simp
  have h3: "events_of
      [Bridge (Event ''Stdout'' (Text ''a'')), Caller (On StderrEmitter ''data'' 3),
       Bridge (Event ''Stdout'' (Text ''b'')),
       Bridge (Event ''Terminated'' (Status (Num 0) Null))]
    = map (\<lambda>c. Event ''Stdout'' (Text c)) [''a'', ''b''] @ [Event ''Terminated'' (Status (Num 0) Null)]"
    by simp
  have h4: "encoding (opts (create ''echo'' None None)) \<noteq> Some ''raw''"
    by (simp add: create_def Command_new_def)
  have h5: "length [On StdoutEmitter ''data'' 1, Once Self ''close'' 2]
      + length [Bridge (Event ''Stdout'' (Text ''a'')), Caller (On StderrEmitter ''data'' 3),
                Bridge (Event ''Stdout'' (Text ''b'')),
                Bridge (Event ''Terminated'' (Status (Num 0) Null))] + 6 \<le> (12::nat)"
    by simp
  have r: "(case [''a'', ''b''] of [] \<Rightarrow> [] | c # cs \<Rightarrow> c @ concat (map ((#) CHR 0x0A) cs))
      = [CHR ''a'', CHR 0x0A, CHR ''b'']"
    by simp
  from execute_text_joins_stdout[OF h1 h2 h3 h4 h5, of 7] show ?thesis unfolding r .
qed

text \<open>
  C4, as stated, for every raw-encoding session: it fails on a session where the caller
  put a listener on \<^verbatim>\<open>stdout\<close> before \<^verbatim>\<open>execute()\<close> and that listener throws, since the
  exception skips the closure of \<^verbatim>\<open>execute()\<close> and no chunk is buffered: for the chunks
  [1,2] and [3] the promise is fulfilled with no bytes. It fails too when the caller
  calls \<^verbatim>\<open>removeAllListeners()\<close> after \<^verbatim>\<open>execute()\<close>: the promise stays pending.
\<close>

theorem execute_raw_caller_listener_counterexample:
  "settled
     (fst (Command_execute (on StdoutEmitter ''data'' (Fn 0)
        (create ''cat'' None (Some \<lparr>encoding = Some ''raw'', sidecar = False\<rparr>)))))
     (deliver (only_throws 0) 8
        [Event ''Stdout'' (Raw [1, 2]), Event ''Stdout'' (Raw [3]),
         Event ''Terminated'' (Status (Num 0) Null)]
        (snd (Command_execute (on StdoutEmitter ''data'' (Fn 0)
           (create ''cat'' None (Some \<lparr>encoding = Some ''raw'', sidecar = False\<rparr>))))))
   = Some (Fulfilled (ChildProcess (Num 0) Null (BytesOut []) (BytesOut [])))
   \<and> settled
     (fst (Command_execute (create ''cat'' None (Some \<lparr>encoding = Some ''raw'', sidecar = False\<rparr>))))
     (session_run idle 8
        [Caller (RemoveAllListeners Self None), Bridge (Event ''Stdout'' (Raw [1, 2])),
         Bridge (Event ''Stdout'' (Raw [3])), Bridge (Event ''Terminated'' (Status (Num 0) Null))]
        (snd (Command_execute (create ''cat'' None (Some \<lparr>encoding = Some ''raw'', sidecar = False\<rparr>)))))
   = Some Pending"
  by (simp add: settled_def only_throws_def idle_def Command_execute_def create_def on_event_def
      dropped_def spawn_def execute_def freeze_if_object_def removeAllListeners_def
      collectOutput_def resolve_def emitter_defs Let_def eval_nat_numeral)

text \<open>
  C4, as the code has it. Take a raw-encoding session in which the functions of the
  caller only return and the caller only adds or removes listeners of its own (as in
  C3). When the events are \<^verbatim>\<open>Stdout\<close> events for the byte chunks \<open>chunks\<close> and then a
  \<^verbatim>\<open>Terminated\<close> event, every call returns and the promise is fulfilled, its \<^verbatim>\<open>stdout\<close>
  being the chunks concatenated, each followed by the byte 10.
\<close>

theorem execute_raw_appends_line_feed:
  assumes pre: "list_all registry_call pre"
    and ts: "list_all registers (calls_of ts)"
    and ev: "events_of ts =
               map (\<lambda>c. Event ''Stdout'' (Raw c)) chunks @ [Event ''Terminated'' (Status cd sg)]"
    and enc: "encoding (opts (create prog a os)) = Some ''raw''"
    and K: "length pre + length ts + 6 \<le> K"
  shows "\<exists>s0 p s s'.
       run idle (Suc (length pre)) pre (create prog a os) = Some (Normal (), s0)
     \<and> Command_execute s0 = (p, s)
     \<and> session_run idle K ts (spawn_catch p (Inr pd) s) = Some s'
     \<and> promises s' p =
         Fulfilled (ChildProcess cd sg (BytesOut (concat (map (\<lambda>c. c @ [10]) chunks))) (BytesOut []))"
proof -
  from run_pre_new[OF pre, of idle prog a os] obtain s0 where
    s0: "run idle (Suc (length pre)) pre (create prog a os) = Some (Normal (), s0)"
      "callers_only UNIV s0" "fits (length pre) s0" "opts s0 = opts (create prog a os)" by blast
  obtain p s where ps: "Command_execute s0 = (p, s)" by (cases "Command_execute s0")
  from execute_executing[OF s0(2,3) ps] obtain out err where
    ex: "executing p out err s" and fit: "fits (Suc (length pre)) s"
    and pe: "promises s p = Pending" and bo: "buffers s out = []" and be: "buffers s err = []"
    and os: "opts s = opts s0" by blast
  from events_split[OF ev] obtain ts1 ts2 where
    sp: "ts = ts1 @ Bridge (Event ''Terminated'' (Status cd sg)) # ts2"
      "events_of ts1 = map (\<lambda>c. Event ''Stdout'' (Raw c)) chunks" "events_of ts2 = []" by blast
  have r1: "list_all registers (calls_of ts1)" and r2: "list_all registers (calls_of ts2)"
    using ts sp(1) by simp_all
  have K1: "Suc (length pre) + length ts1 + 5 \<le> K" using K sp(1) by simp
  from trace_frame[OF ex fit r1 K1] obtain s1 where
    s1: "session_run idle K ts1 s = Some s1" "executing p out err s1"
      "fits (Suc (length pre) + length ts1) s1" "opts s1 = opts s"
      "(\<forall>ev\<in>set (events_of ts1). tag ev \<noteq> ''Terminated'' \<and> tag ev \<noteq> ''Error'') \<longrightarrow>
            promises s1 = promises s"
      "(\<forall>ev\<in>set (events_of ts1). tag ev = ''Stdout'') \<longrightarrow>
            buffers s1 out = buffers s out @ map payload (events_of ts1) \<and>
            buffers s1 err = buffers s err"
    by blast
  have p1: "promises s1 p = Pending" using s1(5) sp(2) pe by auto
  have b1: "buffers s1 out = map Raw chunks" "buffers s1 err = []"
    using s1(6) sp(2) bo be by (auto simp: comp_def)
  from on_event_executing[OF s1(2,3) K1, of "Event ''Terminated'' (Status cd sg)"] obtain c s2 where
    s2: "on_event idle K (Event ''Terminated'' (Status cd sg)) s1 = Some (c, s2)"
      "executing p out err s2" "fits (Suc (length pre) + length ts1) s2"
      "promises s2 = promises (snd (invoke_plain idle (OnClose p out err) (Status cd sg) s1))"
    by auto
  have p2: "promises s2 p =
      Fulfilled (ChildProcess cd sg (BytesOut (concat (map (\<lambda>c. c @ [10]) chunks))) (BytesOut []))"
    using enc p1 b1 s1(4) os s0(4)
    by (simp add: s2(4) collectOutput_raw collectOutput_empty resolve_def)
  have K3: "Suc (length pre) + length ts1 + length ts2 + 5 \<le> K" using K sp(1) by simp
  from trace_frame[OF s2(2,3) r2 K3] p2 obtain s' where
    s': "session_run idle K ts2 s2 = Some s'" "promises s' p = promises s2 p" by auto
  have "session_run idle K ts s = Some s'"
    unfolding sp(1) by (simp add: session_run_append s1(1) s2(1) s'(1) del: on_event_def)
  then show ?thesis
    using s0(1) ps s'(2) p2
    by (intro exI[of _ s0] exI[of _ p] exI[of _ s] exI[of _ s'])
       (simp add: spawn_catch_def spawn_then_def)
qed

theorem execute_raw_appends_line_feed_witness:
  "\<exists>s0 p s s'.
       run idle (Suc (length [On StdoutEmitter ''data'' 1, Once Self ''close'' 2]))
         [On StdoutEmitter ''data'' 1, Once Self ''close'' 2]
         (create ''cat'' None (Some \<lparr>encoding = Some ''raw'', sidecar = False\<rparr>))
         = Some (Normal (), s0)
     \<and> Command_execute s0 = (p, s)
     \<and> session_run idle 12
          [Bridge (Event ''Stdout'' (Raw [1, 2])), Caller (On StderrEmitter ''data'' 3),
           Bridge (Event ''Stdout'' (Raw [3])),
           Bridge (Event ''Terminated'' (Status (Num 0) Null))]
          (spawn_catch p (Inr 7) s) = Some s'
     \<and> promises s' p =
         Fulfilled (ChildProcess (Num 0) Null (BytesOut [1, 2, 10, 3, 10]) (BytesOut []))"
proof -
  have h1: "list_all registry_call [On StdoutEmitter ''data'' 1, Once Self ''close'' 2]"
    by simp
  have h2: "list_all registers
      (calls_of [Bridge (Event ''Stdout'' (Raw [1, 2])), Caller (On StderrEmitter ''data'' 3),
                 Bridge (Event ''Stdout'' (Raw [3])),
                 Bridge (Event ''Terminated'' (Status (Num 0) Null))])"
    by simp
  have h3: "events_of
      [Bridge (Event ''Stdout'' (Raw [1, 2])), Caller (On StderrEmitter ''data'' 3),
       Bridge (Event ''Stdout'' (Raw [3])),
       Bridge (Event ''Terminated'' (Status (Num 0) Null))]
    = map (\<lambda>c. Event ''Stdout'' (Raw c)) [[1, 2], [3]] @ [Event ''Terminated'' (Status (Num 0) Null)]"
    by simp
  have h4: "encoding (opts (create ''cat'' None (Some \<lparr>encoding = Some ''raw'', sidecar = False\<rparr>)))
      = Some ''raw''"
    by (simp add: create_def Command_new_def)
  have h5: "length [On StdoutEmitter ''data'' 1, Once Self ''close'' 2]
      + length [Bridge (Event ''Stdout'' (Raw [1, 2])), Caller (On StderrEmitter ''data'' 3),
                Bridge (Event ''Stdout'' (Raw [3])),
                Bridge (Event ''Terminated'' (Status (Num 0) Null))] + 6 \<le> (12::nat)"
    by simp
  have r: "concat (map (\<lambda>c. c @ [10]) [[1, 2], [3]]) = [1, 2, 10, 3, 10 :: byte]"
    by simp
  from execute_raw_appends_line_feed[OF h1 h2 h3 h4 h5, of 7] show ?thesis unfolding r .
qed

text \<open>
  C5, as stated, for every session: it fails on a session where the caller put a
  listener on \<^verbatim>\<open>error\<close> before \<^verbatim>\<open>execute()\<close> and that listener throws. It runs before
  \<^verbatim>\<open>reject\<close>, its exception ends \<^verbatim>\<open>emit\<close>, and the promise stays pending. It fails too
  when the caller calls \<^verbatim>\<open>removeAllListeners()\<close> after \<^verbatim>\<open>execute()\<close>.
\<close>

theorem execute_error_caller_listener_counterexample:
  "settled (fst (Command_execute (on Self ''error'' (Fn 0) (create ''ls'' None None))))
     (deliver (only_throws 0) 8 [Event ''Error'' (Text ''boom'')]
        (snd (Command_execute (on Self ''error'' (Fn 0) (create ''ls'' None None)))))
   = Some Pending
   \<and> settled (fst (Command_execute (create ''ls'' None None)))
     (session_run idle 8
        [Caller (RemoveAllListeners Self None), Bridge (Event ''Error'' (Text ''boom''))]
        (snd (Command_execute (create ''ls'' None None))))
   = Some Pending"
  by (simp add: settled_def only_throws_def idle_def Command_execute_def create_def on_event_def
      dropped_def spawn_def execute_def freeze_if_object_def removeAllListeners_def
      reject_def emitter_defs Let_def eval_nat_numeral)

text \<open>
  C5, as the code has it. Take a session in which the functions of the caller only
  return and the caller only adds or removes listeners of its own (as in C3). When an
  \<^verbatim>\<open>Error\<close> event arrives and no \<^verbatim>\<open>Terminated\<close> or \<^verbatim>\<open>Error\<close> event came before it, every
  call returns and the promise is rejected with the payload of that event, whatever
  events \<open>post\<close> follow (none, in particular): the promise is never fulfilled, so what was
  buffered is in no resolved value.
\<close>

theorem execute_rejects_on_error:
  assumes pre: "list_all registry_call pre"
    and ts: "list_all registers (calls_of ts)"
    and ev: "events_of ts = before @ Event ''Error'' x # post"
    and nt: "\<forall>ev\<in>set before. tag ev \<noteq> ''Terminated'' \<and> tag ev \<noteq> ''Error''"
    and K: "length pre + length ts + 6 \<le> K"
  shows "\<exists>s0 p s s'.
       run idle (Suc (length pre)) pre (create prog a os) = Some (Normal (), s0)
     \<and> Command_execute s0 = (p, s)
     \<and> session_run idle K ts s = Some s'
     \<and> promises s' p = Rejected x"
proof -
  from run_pre_new[OF pre, of idle prog a os] obtain s0 where
    s0: "run idle (Suc (length pre)) pre (create prog a os) = Some (Normal (), s0)"
      "callers_only UNIV s0" "fits (length pre) s0" by blast
  obtain p s where ps: "Command_execute s0 = (p, s)" by (cases "Command_execute s0")
  from execute_executing[OF s0(2,3) ps] obtain out err where
    ex: "executing p out err s" and fit: "fits (Suc (length pre)) s"
    and pe: "promises s p = Pending" by blast
  from events_split[OF ev] obtain ts1 ts2 where
    sp: "ts = ts1 @ Bridge (Event ''Error'' x) # ts2"
      "events_of ts1 = before" "events_of ts2 = post" by blast
  have r1: "list_all registers (calls_of ts1)" and r2: "list_all registers (calls_of ts2)"
    using ts sp(1) by simp_all
  have K1: "Suc (length pre) + length ts1 + 5 \<le> K" using K sp(1) by simp
  from trace_frame[OF ex fit r1 K1] obtain s1 where
    s1: "session_run idle K ts1 s = Some s1" "executing p out err s1"
      "fits (Suc (length pre) + length ts1) s1"
      "(\<forall>ev\<in>set (events_of ts1). tag ev \<noteq> ''Terminated'' \<and> tag ev \<noteq> ''Error'') \<longrightarrow>
            promises s1 = promises s"
    by blast
  have p1: "promises s1 p = Pending" using s1(4) sp(2) nt pe by auto
  from on_event_executing[OF s1(2,3) K1, of "Event ''Error'' x"] obtain c s2 where
    s2: "on_event idle K (Event ''Error'' x) s1 = Some (c, s2)"
      "executing p out err s2" "fits (Suc (length pre) + length ts1) s2"
      "promises s2 = promises (reject p x s1)"
    by auto
  have p2: "promises s2 p = Rejected x" using p1 by (simp add: s2(4) reject_def)
  have K3: "Suc (length pre) + length ts1 + length ts2 + 5 \<le> K" using K sp(1) by simp
  from trace_frame[OF s2(2,3) r2 K3] p2 obtain s' where
    s': "session_run idle K ts2 s2 = Some s'" "promises s' p = promises s2 p" by auto
  have "session_run idle K ts s = Some s'"
    unfolding sp(1) by (simp add: session_run_append s1(1) s2(1) s'(1) del: on_event_def)
  then show ?thesis
    using s0(1) ps s'(2) p2
    by (intro exI[of _ s0] exI[of _ p] exI[of _ s] exI[of _ s']) simp
qed

theorem execute_rejects_on_error_witness:
  "\<exists>s0 p s s'.
       run idle (Suc (length [On Self ''error'' 1])) [On Self ''error'' 1] (create ''ls'' None None)
         = Some (Normal (), s0)
     \<and> Command_execute s0 = (p, s)
     \<and> session_run idle 11
          [Bridge (Event ''Stdout'' (Text ''a'')), Bridge (Event ''Error'' (Text ''boom'')),
           Caller (Once Self ''close'' 2), Bridge (Event ''Terminated'' (Status (Num 0) Null))]
          s = Some s'
     \<and> promises s' p = Rejected (Text ''boom'')"
proof -
  have h1: "list_all registry_call [On Self ''error'' 1]"
    by simp
  have h2: "list_all registers
      (calls_of [Bridge (Event ''Stdout'' (Text ''a'')), Bridge (Event ''Error'' (Text ''boom'')),
                 Caller (Once Self ''close'' 2), Bridge (Event ''Terminated'' (Status (Num 0) Null))])"
    by simp
  have h3: "events_of
      [Bridge (Event ''Stdout'' (Text ''a'')), Bridge (Event ''Error'' (Text ''boom'')),
       Caller (Once Self ''close'' 2), Bridge (Event ''Terminated'' (Status (Num 0) Null))]
    = [Event ''Stdout'' (Text ''a'')] @ Event ''Error'' (Text ''boom'')
        # [Event ''Terminated'' (Status (Num 0) Null)]"
    by simp
  have h4: "\<forall>ev\<in>set [Event ''Stdout'' (Text ''a'')]. tag ev \<noteq> ''Terminated'' \<and> tag ev \<noteq> ''Error''"
    by simp
  have h5: "length [On Self ''error'' 1]
      + length [Bridge (Event ''Stdout'' (Text ''a'')), Bridge (Event ''Error'' (Text ''boom'')),
                Caller (Once Self ''close'' 2), Bridge (Event ''Terminated'' (Status (Num 0) Null))]
      + 6 \<le> (11::nat)"
    by simp
  from execute_rejects_on_error[OF h1 h2 h3 h4 h5] show ?thesis .
qed

text \<open>
  C6. An event whose tag is none of \<^verbatim>\<open>Stdout\<close>, \<^verbatim>\<open>Stderr\<close>, \<^verbatim>\<open>Error\<close>, \<^verbatim>\<open>Terminated\<close> is
  said to surface as a protocol error. The \<^verbatim>\<open>switch\<close> of the callback has no default
  case: for the tag \<open>''Bogus''\<close>, on a command with \<^verbatim>\<open>execute()\<close> pending, the callback
  returns normally and the command is as before, so no listener ran and the promise
  is still pending.
\<close>

theorem unrecognized_tag_silent_counterexample:
  "on_event idle 0 (Event ''Bogus'' (Text ''x'')) (snd (Command_execute (create ''ls'' None None)))
     = Some (Normal (), snd (Command_execute (create ''ls'' None None)))
   \<and> promises (snd (Command_execute (create ''ls'' None None)))
        (fst (Command_execute (create ''ls'' None None))) = Pending"
  by (simp add: on_event_def Command_execute_def create_def Command_new_def on_def alloc_def
      spawn_def execute_def Let_def)

text \<open>
  C6, as the code has it: the callback ignores an event with an unrecognized tag; it
  returns normally, calls no listener and leaves the command unchanged.
\<close>

theorem unrecognized_tag_ignored:
  assumes "tag ev \<notin> {''Error'', ''Terminated'', ''Stdout'', ''Stderr''}"
  shows "on_event B k ev s = Some (Normal (), s)"
  using assms by (simp add: on_event_def)

theorem unrecognized_tag_ignored_witness:
  "tag (Event ''Bogus'' (Text ''x'')) \<notin> {''Error'', ''Terminated'', ''Stdout'', ''Stderr''} \<and>
   on_event idle 0 (Event ''Bogus'' (Text ''x'')) (Command_new ''ls'' None None)
     = Some (Normal (), Command_new ''ls'' None None)"
proof -
  have h: "tag (Event ''Bogus'' (Text ''x'')) \<notin> {''Error'', ''Terminated'', ''Stdout'', ''Stderr''}"
    by simp
  from unrecognized_tag_ignored[OF h, of idle 0 "Command_new ''ls'' None None"] h
  show ?thesis by blast
qed

text \<open>
  C7. \<^verbatim>\<open>spawn()\<close> freezes the argument array before it hands it to the bridge: the request
  holds the frozen array with the elements it had, and whatever changes \<open>fs\<close> the caller
  attempts on the array afterwards, the array is still the one that was sent.
\<close>

theorem args_frozen_after_spawn:
  "req_args (last (sent (spawn s))) = freeze_if_object (args s)
   \<and> args (fold caller_mutates fs (spawn s)) = freeze_if_object (args s)"
proof -
  have "args (spawn s) = freeze_if_object (args s)"
    by (simp add: spawn_def execute_def Let_def)
  then have "args (fold caller_mutates fs (spawn s)) = freeze_if_object (args s)"
    by (rule fold_caller_mutates_frozen)
  then show ?thesis by (simp add: spawn_def execute_def Let_def)
qed

text \<open>
  C8. After any sequence of \<^verbatim>\<open>on\<close>, \<^verbatim>\<open>once\<close> and \<^verbatim>\<open>off\<close> calls on new emitters, the calls
  all return, \<^verbatim>\<open>listenerCount\<close> is the number of entries the registry of the
  specification holds for that emitter and name (duplicates counted), and \<^verbatim>\<open>off\<close> for a
  function leaves exactly the listeners other than that function, in their order.
\<close>

theorem listenerCount_counts_entries:
  assumes "list_all registration ops"
  shows "\<exists>s'. run B (Suc (length ops)) ops (Command_new prog a os) = Some (Normal (), s')
     \<and> listenerCount e n s' = length (spec_registry ops e n)
     \<and> (\<forall>f. listeners e n (off e n (Fn f) s') = filter (\<lambda>l. l \<noteq> Fn f) (listeners e n s'))"
proof -
  have "refines (Command_new prog a os) (\<lambda>e n. [])"
    by (simp add: refines_def wf_new) (simp add: listeners_def Command_new_def)
  from run_registrations[OF this assms, of "Suc (length ops)" B]
  obtain s' where s': "run B (Suc (length ops)) ops (Command_new prog a os) = Some (Normal (), s')"
    "refines s' (spec_registry ops)" by (auto simp: spec_registry_def)
  then have "wf s'" "list_all2 stands_for (listeners e n s') (spec_registry ops e n)"
    by (auto simp: refines_def)
  then show ?thesis using s'(1)
    by (auto simp: listenerCount_listeners listeners_off dest: list_all2_lengthD)
qed


theorem listenerCount_counts_entries_witness:
  "list_all registration [On Self ''x'' 1, On Self ''x'' 1, Once Self ''x'' 1, On Self ''x'' 2, Off Self ''x'' 1] \<and>
   (\<exists>s'. run idle (Suc (length [On Self ''x'' 1, On Self ''x'' 1, Once Self ''x'' 1, On Self ''x'' 2, Off Self ''x'' 1]))
            [On Self ''x'' 1, On Self ''x'' 1, Once Self ''x'' 1, On Self ''x'' 2, Off Self ''x'' 1]
            (Command_new ''ls'' None None) = Some (Normal (), s')
      \<and> listenerCount Self ''x'' s' = 2)"
proof -
  have h: "list_all registration [On Self ''x'' 1, On Self ''x'' 1, Once Self ''x'' 1, On Self ''x'' 2, Off Self ''x'' 1]"
    by simp
  from listenerCount_counts_entries[OF h, of idle "''ls''" None None Self "''x''"] h
  show ?thesis by (auto simp: spec_registry_def)
qed

text \<open>
  C9. The promise of \<^verbatim>\<open>spawn()\<close> is fulfilled with a \<^verbatim>\<open>Child\<close> holding the process id the
  bridge answered, and the callback hands the payload of a \<^verbatim>\<open>Stdout\<close> event to the
  \<^verbatim>\<open>data\<close> listeners of \<^verbatim>\<open>stdout\<close>, of a \<^verbatim>\<open>Stderr\<close> event to the \<^verbatim>\<open>data\<close> listeners of
  \<^verbatim>\<open>stderr\<close>, of an \<^verbatim>\<open>Error\<close> event to the \<^verbatim>\<open>error\<close> listeners of the command and of a
  \<^verbatim>\<open>Terminated\<close> event to its \<^verbatim>\<open>close\<close> listeners. So with one function of the caller on
  each of the four, one event of each tag calls each function once, with the payload
  of its event.
\<close>

theorem spawn_routes_events:
  "spawn_then (Inr pd) = Inr (Child pd) \<and> pid (Child pd) = pd
   \<and> on_event B k (Event ''Stdout'' x) s = dropped (emit B k StdoutEmitter ''data'' x s)
   \<and> on_event B k (Event ''Stderr'' x) s = dropped (emit B k StderrEmitter ''data'' x s)
   \<and> on_event B k (Event ''Error'' x) s = dropped (emit B k Self ''error'' x s)
   \<and> on_event B k (Event ''Terminated'' x) s = dropped (emit B k Self ''close'' x s)
   \<and> map_option calls
        (deliver idle (Suc (Suc (Suc (Suc j))))
           [Event ''Stdout'' x1, Event ''Stderr'' x2, Event ''Error'' x3, Event ''Terminated'' x4]
           (on Self ''close'' (Fn 4) (on Self ''error'' (Fn 3)
              (on StderrEmitter ''data'' (Fn 2) (on StdoutEmitter ''data'' (Fn 1)
                 (Command_new prog a os))))))
      = Some [(1, x1), (2, x2), (3, x3), (4, x4)]"
  by (simp add: spawn_then_def on_event_def dropped_def emitter_defs idle_def)

text \<open>
  C10, as stated, for every listener \<open>fn\<close>: it fails when \<open>fn\<close> is also registered by
  \<^verbatim>\<open>on\<close>. After \<^verbatim>\<open>on(''x'', fn)\<close> and \<^verbatim>\<open>once(''x'', fn)\<close> the count is 2, and \<^verbatim>\<open>off(''x'', fn)\<close>
  removes the entry of \<^verbatim>\<open>on\<close>, so the count is 1. And \<^verbatim>\<open>emit\<close> does not reach \<open>fn\<close> when
  a listener registered before it throws: with function 0 throwing, registered by \<^verbatim>\<open>on\<close>
  before \<^verbatim>\<open>once(''x'', 1)\<close>, only function 0 is called.
\<close>

theorem off_after_once_counterexample:
  "listenerCount Self ''x''
     (once Self ''x'' (Fn 1) (on Self ''x'' (Fn 1) (Command_new ''ls'' None None))) = 2
   \<and> listenerCount Self ''x''
     (off Self ''x'' (Fn 1) (once Self ''x'' (Fn 1) (on Self ''x'' (Fn 1) (Command_new ''ls'' None None))))
     = 1
   \<and> map_option calls (map_option snd
       (emit (only_throws 0) 8 Self ''x'' (Text ''a'')
          (off Self ''x'' (Fn 1) (once Self ''x'' (Fn 1)
             (on Self ''x'' (Fn 0) (Command_new ''ls'' None None))))))
     = Some [(0, Text ''a'')]"
  by (simp add: emitter_defs only_throws_def eval_nat_numeral)

text \<open>
  C10, as the code has it. Take an emitter on which the caller made any calls of \<^verbatim>\<open>on\<close>,
  \<^verbatim>\<open>once\<close>, \<^verbatim>\<open>off\<close>, \<^verbatim>\<open>prependListener\<close>, \<^verbatim>\<open>prependOnceListener\<close> and \<^verbatim>\<open>removeAllListeners\<close>,
  none of them with \<open>fn\<close>, where the other functions only return and \<open>fn\<close> returns or
  throws. Then \<^verbatim>\<open>off(name, fn)\<close> after \<^verbatim>\<open>once(name, fn)\<close> removes nothing, as the array
  holds the wrapper and not \<open>fn\<close>: \<^verbatim>\<open>listenerCount(name)\<close> is the same before and after
  the \<^verbatim>\<open>off\<close>, and \<^verbatim>\<open>emit(name, arg)\<close> then returns, or throws what \<open>fn\<close> throws, having
  called \<open>fn\<close> exactly once.
\<close>

theorem off_keeps_once_wrapper:
  assumes pre: "list_all (\<lambda>a. registry_call a \<and> \<not> mentions f a) pre"
    and others: "\<forall>g x. g \<noteq> f \<longrightarrow> B g x = []"
    and fn: "returns_or_throws (B f arg)"
    and K: "length pre + 6 \<le> K"
  shows "\<exists>s c s'.
       run B (Suc (length pre)) pre (Command_new prog a os) = Some (Normal (), s)
     \<and> listenerCount e n (off e n (Fn f) (once e n (Fn f) s)) =
         listenerCount e n (once e n (Fn f) s)
     \<and> emit B K e n arg (off e n (Fn f) (once e n (Fn f) s)) = Some (c, s')
     \<and> count_list (map fst (calls s')) f = 1"
proof -
  have "list_all (\<lambda>a. registry_call a \<and> (\<forall>g. mentions g a \<longrightarrow> g \<in> - {f})) pre"
    using pre by (auto simp: list_all_iff)
  from run_callers_only[OF callers_only_new(1)[of "- {f}" prog a os] callers_only_new(2)[of prog a os] this,
      where k = "Suc (length pre)" and B = B]
  obtain s where s: "run B (Suc (length pre)) pre (Command_new prog a os) = Some (Normal (), s)"
    "callers_only (- {f}) s" "fits (length pre) s" "calls s = []"
    by (auto simp: Command_new_def)
  have wf: "wf s" using s(2) by (simp add: callers_only_def)
  let ?us = "listeners e n s"
  let ?W = "Wrapper (fresh s) e n (Fn f)"
  let ?s2 = "off e n (Fn f) (once e n (Fn f) s)"
  have us: "\<forall>l\<in>set ?us. caller l \<and> target l \<noteq> f"
    using s(2) by (auto simp: callers_only_def)
  then have nf: "filter (\<lambda>x. x \<noteq> Fn f) ?us = ?us"
    by (auto simp: filter_id_conv)
  have l2: "listeners e n ?s2 = ?us @ [?W]"
    using off_after_once[OF wf, of e n f] nf by simp
  have l1: "listeners e n (once e n (Fn f) s) = ?us @ [?W]"
    using wf by (simp add: listeners_once)
  have cnt: "listenerCount e n ?s2 = listenerCount e n (once e n (Fn f) s)"
    by (simp add: listenerCount_listeners l1 l2)
  have wf2: "wf ?s2" using wf by (simp add: wf_off wf_once)
  have pl: "\<forall>l\<in>set (listeners e n ?s2). plain_listener B arg l"
    using us others fn by (auto simp: l2 caller_plain)
  have len: "length (listeners e n ?s2) + 5 \<le> K"
    using s(3)[unfolded fits_def, rule_format, of e n] K by (simp add: l2)
  obtain r where r: "eventListeners ?s2 e n = Some r"
    using l2 by (cases "eventListeners ?s2 e n") (auto simp: listeners_def)
  have em: "emit B K e n arg ?s2 =
      Some (case loop_plain B (?us @ [?W]) arg ?s2 of
              (Threw x, s') \<Rightarrow> (Threw x, s') | (Normal u, s') \<Rightarrow> (Normal True, s'))"
    using emit_plain[OF wf2 pl len] r l2 by simp
  have "\<forall>l\<in>set ?us. caller l \<and> target l \<noteq> f \<and> B (target l) arg = []"
    using us others by auto
  from loop_others[where us = ?us and f = f and B = B and arg = arg and rest = "[?W]" and s = ?s2,
      OF this] obtain s1 where
    s1: "loop_plain B (?us @ [?W]) arg ?s2 = loop_plain B [?W] arg s1"
      "count_list (map fst (calls s1)) f = count_list (map fst (calls ?s2)) f" by blast
  have c0: "count_list (map fst (calls s1)) f = 0" using s1(2) s(4) by simp
  obtain c s' where w: "invoke_plain B ?W arg s1 = (c, s')" by (cases "invoke_plain B ?W arg s1")
  then have c1: "count_list (map fst (calls s')) f = 1"
    using c0 by (auto simp: removeListener_def)
  have "\<exists>c'. loop_plain B [?W] arg s1 = (c', s')"
    using w by (cases c) (simp_all del: invoke_plain.simps)
  then obtain c' where "loop_plain B (?us @ [?W]) arg ?s2 = (c', s')" using s1(1) by auto
  then have "\<exists>c''. emit B K e n arg ?s2 = Some (c'', s')"
    using em by (cases c') simp_all
  then show ?thesis using s(1) cnt c1 by blast
qed

theorem off_keeps_once_wrapper_witness:
  "\<exists>s c s'.
       run (only_throws 3) (Suc (length [On Self ''x'' 1, Once Self ''x'' 2]))
         [On Self ''x'' 1, Once Self ''x'' 2] (Command_new ''ls'' None None) = Some (Normal (), s)
     \<and> listenerCount Self ''x'' (off Self ''x'' (Fn 3) (once Self ''x'' (Fn 3) s)) =
         listenerCount Self ''x'' (once Self ''x'' (Fn 3) s)
     \<and> emit (only_throws 3) 8 Self ''x'' (Text ''a'')
          (off Self ''x'' (Fn 3) (once Self ''x'' (Fn 3) s)) = Some (c, s')
     \<and> count_list (map fst (calls s')) 3 = 1"
proof -
  have h1: "list_all (\<lambda>a. registry_call a \<and> \<not> mentions 3 a) [On Self ''x'' 1, Once Self ''x'' 2]"
    by simp
  have h2: "\<forall>g x. g \<noteq> 3 \<longrightarrow> only_throws 3 g x = []"
    by (simp add: only_throws_def)
  have h3: "returns_or_throws (only_throws 3 3 (Text ''a''))"
    by (simp add: only_throws_def)
  have h4: "length [On Self ''x'' 1, Once Self ''x'' 2] + 6 \<le> (8::nat)"
    by simp
  from off_keeps_once_wrapper[OF h1 h2 h3 h4] show ?thesis .
qed

end
